theory Spec2Isabelle
  imports Main "HOL-Library.Word" "HOL-Library.AList"
begin

section \<open>Strings and the change hash\<close>

text \<open>
  A JavaScript string is a sequence of UTF-16 code units; \<open>charCodeAt\<close> and \<open>length\<close>
  read code units. Identifiers, URLs, titles and HTML are all such strings.
\<close>

type_synonym jsstring = "16 word list"

definition js :: "string \<Rightarrow> jsstring" where
  "js s = map of_char s"

text \<open>
  \<open>hashString\<close> of \<open>server.js\<close>: \<open>hash << 5\<close> and \<open>hash & hash\<close> convert their
  operand to a signed 32-bit integer (ToInt32); the subtraction and the addition between them
  are exact on numbers of this size.
\<close>

definition to_int32 :: "int \<Rightarrow> int" where
  "to_int32 x = sint (word_of_int x :: 32 word)"

definition hash_step :: "int \<Rightarrow> 16 word \<Rightarrow> int" where
  "hash_step hash c =
     (let char = uint c;
          hash1 = (to_int32 (hash * 2 ^ 5) - hash) + char
      in to_int32 hash1)"

fun hash_loop :: "int \<Rightarrow> jsstring \<Rightarrow> int" where
  "hash_loop hash [] = hash"
| "hash_loop hash (c # cs) = hash_loop (hash_step hash c) cs"

text \<open>\<open>Number.prototype.toString(36)\<close> on an integer: digits \<open>0-9a-z\<close>, a leading minus sign.\<close>

definition digit36 :: "nat \<Rightarrow> 16 word" where
  "digit36 d = (if d < 10 then of_nat (48 + d) else of_nat (87 + d))"

fun digits36 :: "nat \<Rightarrow> jsstring" where
  "digits36 n = (if n < 36 then [digit36 n] else digits36 (n div 36) @ [digit36 (n mod 36)])"

declare digits36.simps [simp del]

definition toString36 :: "int \<Rightarrow> jsstring" where
  "toString36 i = (if i < 0 then 45 # digits36 (nat (- i)) else digits36 (nat i))"

definition hashString :: "jsstring \<Rightarrow> jsstring" where
  "hashString str = toString36 (hash_loop 0 str)"

text \<open>The same hash read in the ring of 32-bit words, and the value of a base-36 numeral.\<close>

definition hash_word :: "32 word \<Rightarrow> jsstring \<Rightarrow> 32 word" where
  "hash_word h s = foldl (\<lambda>a c. 31 * a + ucast c) h s"

definition undigit36 :: "16 word \<Rightarrow> nat" where
  "undigit36 c = (if unat c < 58 then unat c - 48 else unat c - 87)"

definition val36 :: "jsstring \<Rightarrow> nat" where
  "val36 s = foldl (\<lambda>a c. 36 * a + undigit36 c) 0 s"

section \<open>The title validity filter\<close>

text \<open>
  \<open>normalizeText\<close> is \<open>(value || '').replace(/\s+/g, ' ').trim()\<close>. The class \<open>\s\<close> and the
  characters removed by \<open>trim\<close> are the same set: ECMAScript white space and line terminators.
  On a string \<open>value || ''\<close> is the string itself.
\<close>

definition is_space :: "16 word \<Rightarrow> bool" where
  "is_space c \<longleftrightarrow>
     c = 9 \<or> c = 10 \<or> c = 11 \<or> c = 12 \<or> c = 13 \<or> c = 32 \<or> c = 160 \<or> c = 5760 \<or>
     (8192 \<le> c \<and> c \<le> 8202) \<or> c = 8232 \<or> c = 8233 \<or> c = 8239 \<or> c = 8287 \<or>
     c = 12288 \<or> c = 65279"

function replace_spaces :: "jsstring \<Rightarrow> jsstring" where
  "replace_spaces [] = []"
| "replace_spaces (c # cs) =
     (if is_space c then 32 # replace_spaces (dropWhile is_space cs)
      else c # replace_spaces cs)"
  by pat_completeness auto
termination
  by (relation "measure length") (auto simp: length_dropWhile_le le_imp_less_Suc)

definition trim :: "jsstring \<Rightarrow> jsstring" where
  "trim s = rev (dropWhile is_space (rev (dropWhile is_space s)))"

definition normalizeText :: "jsstring \<Rightarrow> jsstring" where
  "normalizeText v = trim (replace_spaces v)"

text \<open>
  The eight patterns of \<open>bad\<close> use literal characters, one optional character (\<open>s?\<close>), the
  start anchor and sometimes the end anchor, under the flag \<open>i\<close>. Without the flag \<open>u\<close>, two
  code units match when their canonical (upper-case) forms agree, and a code unit from 128
  on never canonicalises below 128; every pattern character is ASCII, so only the ASCII
  letters need their upper-case form here.
\<close>

definition canonicalize :: "16 word \<Rightarrow> 16 word" where
  "canonicalize c = (if 97 \<le> c \<and> c \<le> 122 then c - 32 else c)"

datatype re_item = Lit "16 word" | Opt "16 word"

fun re_match :: "re_item list \<Rightarrow> bool \<Rightarrow> jsstring \<Rightarrow> bool" where
  "re_match [] anchored s = (anchored \<longrightarrow> s = [])"
| "re_match (Lit p # ps) anchored [] = False"
| "re_match (Lit p # ps) anchored (c # cs) =
     (canonicalize c = canonicalize p \<and> re_match ps anchored cs)"
| "re_match (Opt p # ps) anchored [] = re_match ps anchored []"
| "re_match (Opt p # ps) anchored (c # cs) =
     ((canonicalize c = canonicalize p \<and> re_match ps anchored cs) \<or> re_match ps anchored (c # cs))"

definition lits :: "string \<Rightarrow> re_item list" where
  "lits s = map (\<lambda>c. Lit (of_char c)) s"

definition bad :: "(re_item list \<times> bool) list" where
  "bad =
    [(lits ''new chat'', False),
     (lits ''new conversation'', False),
     (lits ''past chat'' @ [Opt (of_char CHR ''s'')], False),
     (lits ''view all'', False),
     (lits ''plan'', False),
     (lits ''local'', True),
     (lits ''run everything'', False),
     (lits ''success'', True)]"

definition isGoodTitle :: "jsstring \<Rightarrow> bool" where
  "isGoodTitle v =
     (let text = normalizeText v in
      if length text < 3 \<or> length text > 80 then False
      else \<not> list_ex (\<lambda>re. re_match (fst re) (snd re) text) bad)"

text \<open>Lower-casing of the ASCII letters, to speak about "any letter casing" of a phrase.\<close>

definition lower :: "16 word \<Rightarrow> 16 word" where
  "lower c = (if 65 \<le> c \<and> c \<le> 90 then c + 32 else c)"

definition starts_with_ci :: "string \<Rightarrow> jsstring \<Rightarrow> bool" where
  "starts_with_ci phrase text \<longleftrightarrow>
     length phrase \<le> length text \<and> map lower (take (length phrase) text) = js phrase"

definition equals_ci :: "string \<Rightarrow> jsstring \<Rightarrow> bool" where
  "equals_ci phrase text \<longleftrightarrow> map lower text = js phrase"

text \<open>
  What "white space collapsed and trimmed" means: the words of a string are its maximal
  runs of characters that are not white space, and the normal form is the words joined by
  single spaces.
\<close>

function split_words :: "jsstring \<Rightarrow> jsstring list" where
  "split_words [] = []"
| "split_words (c # cs) =
     (if is_space c then split_words cs
      else (c # takeWhile (\<lambda>x. \<not> is_space x) cs) # split_words (dropWhile (\<lambda>x. \<not> is_space x) cs))"
  by pat_completeness auto
termination
  by (relation "measure length") (auto simp: length_dropWhile_le le_imp_less_Suc)

fun join_words :: "jsstring list \<Rightarrow> jsstring" where
  "join_words [] = []"
| "join_words [w] = w"
| "join_words (w # v # rest) = w @ 32 # join_words (v # rest)"

text \<open>The characters that occur in the patterns: the lower-case ASCII letters and the space.\<close>

definition is_pat :: "16 word \<Rightarrow> bool" where
  "is_pat p \<longleftrightarrow> (97 \<le> p \<and> p \<le> 122) \<or> p = 32"

section \<open>Protocol sessions and metadata extraction\<close>

text \<open>
  The probe script of \<open>extractMetadata\<close> runs inside the page; what the engine sees is the
  answer of \<open>cdp.call("Runtime.evaluate", \<dots>)\<close> for a context id: the call is rejected
  (or its answer cannot be read: both land in the \<open>catch\<close>), or it answers a value whose
  \<open>found\<close> is true together with the located chat root, or it answers anything else.
\<close>

datatype app_shape = Antigravity | Cursor

record page_meta =
  app :: app_shape
  rootElementId :: "jsstring option"
  rootSelector :: jsstring
  chatTitle :: jsstring
  isActive :: bool

datatype probe_reply = Rejected | Not_found | Found page_meta

fun is_found :: "probe_reply \<Rightarrow> bool" where
  "is_found (Found v) = True"
| "is_found _ = False"

text \<open>
  A session: the socket it owns (an index into the table of sockets the engine has opened),
  the ids of the execution contexts it knows, in order, and the cached root context id.
  A context id is a number; \<open>if (cdp.rootContextId)\<close> holds for a cached id other than 0.
\<close>

record cdp =
  ws :: nat
  contexts :: "nat list"
  rootContextId :: "nat option"

definition truthy_id :: "nat option \<Rightarrow> bool" where
  "truthy_id r = (case r of None \<Rightarrow> False | Some n \<Rightarrow> n \<noteq> 0)"

text \<open>
  The loop over \<open>cdp.contexts\<close>. The second component lists the context ids for which an
  evaluation request was sent, in the order of sending.
\<close>

fun scan_contexts ::
  "(nat \<Rightarrow> probe_reply) \<Rightarrow> nat list \<Rightarrow> (page_meta \<times> nat) option \<times> nat list" where
  "scan_contexts call [] = (None, [])"
| "scan_contexts call (ctx # ctxs) =
     (case call ctx of
        Found v \<Rightarrow> (Some (v, ctx), [ctx])
      | _ \<Rightarrow> (case scan_contexts call ctxs of (r, sent) \<Rightarrow> (r, ctx # sent)))"

text \<open>
  \<open>extractMetadata\<close> returns the session as it leaves it, the result (the page value with
  its \<open>contextId\<close>, or null) and the requests sent.
\<close>

definition cached_id :: "cdp \<Rightarrow> nat option" where
  "cached_id c = (if truthy_id (rootContextId c) then rootContextId c else None)"

definition extractMetadata ::
  "cdp \<Rightarrow> (nat \<Rightarrow> probe_reply) \<Rightarrow> cdp \<times> (page_meta \<times> nat) option \<times> nat list" where
  "extractMetadata c call =
     (case cached_id c of
        Some r \<Rightarrow>
          (case call r of
             Found v \<Rightarrow> (c, Some (v, r), [r])
           | Rejected \<Rightarrow>
               (let c1 = c\<lparr>rootContextId := None\<rparr> in
                case scan_contexts call (contexts c1) of (res, sent) \<Rightarrow> (c1, res, r # sent))
           | Not_found \<Rightarrow>
               (case scan_contexts call (contexts c) of (res, sent) \<Rightarrow> (c, res, r # sent)))
      | None \<Rightarrow> (case scan_contexts call (contexts c) of (res, sent) \<Rightarrow> (c, res, sent)))"

text \<open>Both callers store a returned context id: \<open>if (meta.contextId) cdp.rootContextId = meta.contextId\<close>.\<close>

definition cache_context :: "cdp \<Rightarrow> nat \<Rightarrow> cdp" where
  "cache_context c ctx = (if ctx \<noteq> 0 then c\<lparr>rootContextId := Some ctx\<rparr> else c)"

text \<open>
  What a scan of a context list comes to: the first context, in order, whose probe reports
  found, and the contexts probed up to and including that one.
\<close>

definition first_found :: "(nat \<Rightarrow> probe_reply) \<Rightarrow> nat list \<Rightarrow> (page_meta \<times> nat) option" where
  "first_found call ctxs =
     (case find (\<lambda>x. is_found (call x)) ctxs of
        None \<Rightarrow> None
      | Some x \<Rightarrow> (case call x of Found v \<Rightarrow> Some (v, x) | _ \<Rightarrow> None))"

definition probed :: "(nat \<Rightarrow> probe_reply) \<Rightarrow> nat list \<Rightarrow> nat list" where
  "probed call ctxs =
     takeWhile (\<lambda>x. \<not> is_found (call x)) ctxs @
     (case find (\<lambda>x. is_found (call x)) ctxs of None \<Rightarrow> [] | Some x \<Rightarrow> [x])"

text \<open>
  A session whose cached context 3 has gone stale: the probe there is rejected, context 1
  has no chat root, context 2 has one.
\<close>

definition stale_meta :: page_meta where
  "stale_meta = \<lparr>app = Antigravity, rootElementId = Some (js ''cascade''),
     rootSelector = js ''#cascade'', chatTitle = js ''Fix bug'', isActive = True\<rparr>"



section \<open>The registry\<close>

record snapshot =
  html :: jsstring
  bodyBg :: jsstring
  bodyColor :: jsstring
  title :: "jsstring option"

record metadata =
  windowTitle :: "jsstring option"
  chatTitle :: jsstring
  isActive :: bool
  app :: app_shape
  rootElementId :: "jsstring option"
  rootSelector :: jsstring

record cascade =
  cascade_id :: jsstring
  cdp :: cdp
  metadata :: metadata
  snapshot :: "snapshot option"
  css :: "jsstring option"
  snapshotHash :: "jsstring option"

datatype ready_state = CONNECTING | OPEN | CLOSING | CLOSED

text \<open>
  The engine's state. Registry entries are objects shared between the old map, the map under
  construction and a running poll, so they live in a store, \<open>heap\<close>, addressed by position;
  the \<open>Map\<close> \<open>cascades\<close> is the list of its keys with the addresses of their entries, in
  insertion order. \<open>sockets\<close> lists every WebSocket the engine has created, with the URL it
  was opened to and its \<open>readyState\<close>.
\<close>

record state =
  heap :: "cascade list"
  sockets :: "(jsstring \<times> ready_state) list"
  cascades :: "(jsstring \<times> nat) list"

record list_entry =
  entry_id :: jsstring
  entry_title :: jsstring
  entry_window :: "jsstring option"
  entry_active :: bool

text \<open>
  An event is a message handed to \<open>broadcast\<close>, which sends it to every subscriber whose
  socket is open: the full list of entries, or the id of an entry whose snapshot changed.
\<close>

datatype event = Cascade_list "list_entry list" | Snapshot_update jsstring

definition broadcastCascadeList :: "state \<Rightarrow> event" where
  "broadcastCascadeList st =
     Cascade_list (map (\<lambda>(k, a). let c = heap st ! a in
        \<lparr>entry_id = cascade_id c, entry_title = metadata.chatTitle (metadata c),
         entry_window = windowTitle (metadata c), entry_active = metadata.isActive (metadata c)\<rparr>)
        (cascades st))"

definition readyState :: "state \<Rightarrow> nat \<Rightarrow> ready_state" where
  "readyState st w = snd (sockets st ! w)"

text \<open>\<open>ws.close()\<close> starts the closing handshake of a socket that is not yet closing or closed.\<close>

fun closing :: "ready_state \<Rightarrow> ready_state" where
  "closing CONNECTING = CLOSING"
| "closing OPEN = CLOSING"
| "closing CLOSING = CLOSING"
| "closing CLOSED = CLOSED"

definition ws_close :: "(jsstring \<times> ready_state) list \<Rightarrow> nat \<Rightarrow> (jsstring \<times> ready_state) list" where
  "ws_close socks w = socks[w := (fst (socks ! w), closing (snd (socks ! w)))]"

section \<open>Discovery\<close>

text \<open>
  A target descriptor as the listing endpoint gives it; each field may be absent. The port
  that \<open>discover\<close> adds to a candidate is never read again and is left out.
\<close>

record target =
  url :: "jsstring option"
  target_title :: "jsstring option"
  webSocketDebuggerUrl :: "jsstring option"

text \<open>
  What the outside world answers while the loop handles one candidate: the probe answers on
  the existing session, the fate of a fresh connection (the socket fails to open; it opens
  but \<open>Runtime.enable\<close> is rejected; or the session is set up with the contexts announced
  so far), the probe answers on the fresh session, and the answer of the stylesheet capture.
  A pass in which an awaited call never settles does not come back and has no result here.
\<close>

datatype connect_reply = Refused | Enable_rejected | Connected "nat list"

datatype css_reply = Css_rejected | Css_value "jsstring option"

record outcome =
  refresh_probe :: "nat \<Rightarrow> probe_reply"
  connect :: connect_reply
  fresh_probe :: "nat \<Rightarrow> probe_reply"
  css_answer :: css_reply

datatype port_reply = Unreachable | Not_a_list | Listing "(target \<times> outcome) list"

datatype js_error = TypeError

fun includes_str :: "jsstring \<Rightarrow> jsstring \<Rightarrow> bool" where
  "includes_str [] sub = (sub = [])"
| "includes_str (c # cs) sub = (take (length sub) (c # cs) = sub \<or> includes_str cs sub)"

definition is_workbench :: "target \<Rightarrow> bool" where
  "is_workbench t \<longleftrightarrow>
     (case url t of None \<Rightarrow> False | Some u \<Rightarrow> includes_str u (js ''workbench.html'')) \<or>
     (case target_title t of None \<Rightarrow> False | Some n \<Rightarrow> includes_str n (js ''workbench''))"

text \<open>
  Step 1. \<open>getJson\<close> resolves to the empty list for a port that fails to answer or
  answers something that is not JSON; the candidates are collected in the order in which
  the ports answer. A port whose answer parses to something other than an array makes
  \<open>list.filter\<close> throw, and the pass is rejected at the end of step 1.
\<close>

definition all_targets :: "port_reply list \<Rightarrow> (target \<times> outcome) list" where
  "all_targets replies =
     concat (map (\<lambda>r. case r of Unreachable \<Rightarrow> []
                             | Not_a_list \<Rightarrow> []
                             | Listing ts \<Rightarrow> filter (\<lambda>x. is_workbench (fst x)) ts) replies)"

definition captureCSS :: "cdp \<Rightarrow> css_reply \<Rightarrow> jsstring option" where
  "captureCSS c reply =
     (if \<not> truthy_id (rootContextId c) then None
      else (case reply of
              Css_rejected \<Rightarrow> Some []
            | Css_value None \<Rightarrow> Some []
            | Css_value (Some text) \<Rightarrow> Some text))"

text \<open>
  Step 2, the reuse branch: the entry under the identity, if there is one and its socket is
  open, has its metadata refreshed. The result is the address of the entry that goes into the
  new map, or nothing when the loop falls through to a new connection.
\<close>

definition refresh_existing :: "state \<Rightarrow> jsstring \<Rightarrow> outcome \<Rightarrow> state \<times> nat option" where
  "refresh_existing st k out =
     (case map_of (cascades st) k of
        None \<Rightarrow> (st, None)
      | Some a \<Rightarrow>
          (let existing = heap st ! a in
           if readyState st (ws (cdp existing)) = OPEN then
             (case extractMetadata (cdp existing) (refresh_probe out) of
                (c1, None, sent) \<Rightarrow>
                  (st\<lparr>heap := (heap st)[a := existing\<lparr>cdp := c1\<rparr>]\<rparr>, None)
              | (c1, Some (v, ctx), sent) \<Rightarrow>
                  (st\<lparr>heap := (heap st)[a := existing
                       \<lparr>cdp := cache_context c1 ctx,
                        metadata := (metadata existing)
                          \<lparr>chatTitle := page_meta.chatTitle v, isActive := page_meta.isActive v,
                           app := page_meta.app v, rootElementId := page_meta.rootElementId v,
                           rootSelector := page_meta.rootSelector v\<rparr>\<rparr>]\<rparr>,
                   Some a))
           else (st, None)))"

text \<open>Step 2, the new connection (\<open>connectCDP\<close> and what follows it inside the \<open>try\<close>).\<close>

definition connect_new ::
  "state \<Rightarrow> (jsstring \<times> nat) list \<Rightarrow> jsstring \<Rightarrow> jsstring \<Rightarrow> target \<Rightarrow> outcome
     \<Rightarrow> state \<times> (jsstring \<times> nat) list" where
  "connect_new st newCascades k u t out =
     (case connect out of
        Refused \<Rightarrow> (st\<lparr>sockets := sockets st @ [(u, CLOSED)]\<rparr>, newCascades)
      | Enable_rejected \<Rightarrow> (st\<lparr>sockets := sockets st @ [(u, OPEN)]\<rparr>, newCascades)
      | Connected ctxs \<Rightarrow>
          (let w = length (sockets st);
               socks = sockets st @ [(u, OPEN)];
               c0 = \<lparr>ws = w, contexts = ctxs, rootContextId = None\<rparr>
           in case extractMetadata c0 (fresh_probe out) of
                (c1, Some (v, ctx), sent) \<Rightarrow>
                  (let c2 = cache_context c1 ctx;
                       entry = \<lparr>cascade_id = k, cdp = c2,
                                metadata = \<lparr>windowTitle = target_title t,
                                   chatTitle = page_meta.chatTitle v,
                                   isActive = page_meta.isActive v,
                                   app = page_meta.app v,
                                   rootElementId = page_meta.rootElementId v,
                                   rootSelector = page_meta.rootSelector v\<rparr>,
                                snapshot = None,
                                css = captureCSS c2 (css_answer out),
                                snapshotHash = None\<rparr>
                   in (st\<lparr>heap := heap st @ [entry], sockets := socks\<rparr>,
                       AList.update k (length (heap st)) newCascades))
              | (c1, None, sent) \<Rightarrow> (st\<lparr>sockets := ws_close socks w\<rparr>, newCascades)))"

text \<open>
  One turn of the loop of step 2. \<open>hashString(target.webSocketDebuggerUrl)\<close> stands outside
  the \<open>try\<close>: on a descriptor without that field it throws and the pass is rejected.
\<close>

definition reconcile_target ::
  "state \<times> (jsstring \<times> nat) list \<Rightarrow> target \<times> outcome
     \<Rightarrow> js_error + state \<times> (jsstring \<times> nat) list" where
  "reconcile_target acc x =
     (case acc of (st, newCascades) \<Rightarrow>
       (case x of (t, out) \<Rightarrow>
         (case webSocketDebuggerUrl t of
            None \<Rightarrow> Inl TypeError
          | Some u \<Rightarrow>
              (let k = hashString u in
               (case refresh_existing st k out of
                  (st1, Some a) \<Rightarrow> Inr (st1, AList.update k a newCascades)
                | (st1, None) \<Rightarrow> Inr (connect_new st1 newCascades k u t out))))))"

fun reconcile ::
  "state \<times> (jsstring \<times> nat) list \<Rightarrow> (target \<times> outcome) list
     \<Rightarrow> js_error + state \<times> (jsstring \<times> nat) list" where
  "reconcile acc [] = Inr acc"
| "reconcile acc (x # xs) =
     (case reconcile_target acc x of Inl e \<Rightarrow> Inl e | Inr acc1 \<Rightarrow> reconcile acc1 xs)"

text \<open>Step 3: the socket of every old entry whose key is not in the new map is closed.\<close>

definition cleanup :: "state \<Rightarrow> (jsstring \<times> nat) list \<Rightarrow> (jsstring \<times> ready_state) list" where
  "cleanup st newCascades =
     foldl (\<lambda>socks (k, a).
              if map_of newCascades k = None then ws_close socks (ws (cdp (heap st ! a)))
              else socks)
       (sockets st) (cascades st)"

definition discover :: "state \<Rightarrow> port_reply list \<Rightarrow> js_error + state \<times> event list" where
  "discover st replies =
     (if Not_a_list \<in> set replies then Inl TypeError
      else
       (case reconcile (st, []) (all_targets replies) of
          Inl e \<Rightarrow> Inl e
        | Inr (st1, newCascades) \<Rightarrow>
            (let changed = (length (cascades st1) \<noteq> length newCascades);
                 st2 = st1\<lparr>sockets := cleanup st1 newCascades, cascades := newCascades\<rparr>
             in Inr (st2, if changed then [broadcastCascadeList st2] else []))))"

section \<open>Snapshot polling\<close>

datatype capture_reply = Capture_rejected | Capture_no_root | Capture_value snapshot

definition captureHTML :: "cdp \<Rightarrow> capture_reply \<Rightarrow> snapshot option" where
  "captureHTML c reply =
     (if \<not> truthy_id (rootContextId c) then None
      else (case reply of Capture_value snap \<Rightarrow> Some snap | _ \<Rightarrow> None))"

text \<open>
  The callback that \<open>updateSnapshots\<close> runs for the entry at address \<open>a\<close>. Everything after
  the awaited capture runs without interruption.
\<close>

definition update_entry :: "state \<Rightarrow> nat \<Rightarrow> capture_reply \<Rightarrow> state \<times> event list" where
  "update_entry st a reply =
     (let c = heap st ! a in
      case captureHTML (cdp c) reply of
        None \<Rightarrow> (st, [])
      | Some snap \<Rightarrow>
          (let hash = hashString (html snap) in
           if Some hash \<noteq> snapshotHash c then
             (let c1 = c\<lparr>snapshot := Some snap, snapshotHash := Some hash\<rparr> in
              case title snap of
                None \<Rightarrow> (st\<lparr>heap := (heap st)[a := c1]\<rparr>, [Snapshot_update (cascade_id c)])
              | Some t \<Rightarrow>
                  if t \<noteq> [] \<and> t \<noteq> metadata.chatTitle (metadata c) then
                    (let c2 = c1\<lparr>metadata := (metadata c1)\<lparr>chatTitle := t\<rparr>\<rparr>;
                         st2 = st\<lparr>heap := (heap st)[a := c2]\<rparr>
                     in (st2, [broadcastCascadeList st2, Snapshot_update (cascade_id c)]))
                  else (st\<lparr>heap := (heap st)[a := c1]\<rparr>, [Snapshot_update (cascade_id c)]))
           else (st, [])))"

text \<open>
  A polling pass. The captures of all entries of the registry are started together and
  their callbacks run in the order in which the captures resolve: \<open>completions\<close> lists the
  addresses of the entries of \<open>Array.from(cascades.values())\<close>, in that order, each with the
  answer of its capture.
\<close>

definition updateSnapshots :: "state \<Rightarrow> (nat \<times> capture_reply) list \<Rightarrow> state \<times> event list" where
  "updateSnapshots st completions =
     foldl (\<lambda>(s, evs) (a, reply). case update_entry s a reply of (s1, e) \<Rightarrow> (s1, evs @ e))
       (st, []) completions"

definition hash_consistent :: "cascade \<Rightarrow> bool" where
  "hash_consistent c \<longleftrightarrow>
     (case snapshot c of
        None \<Rightarrow> snapshotHash c = None
      | Some snap \<Rightarrow> snapshotHash c = Some (hashString (html snap)))"

section \<open>HTTP routes\<close>

record inject_result =
  ok :: bool
  reason :: "jsstring option"

datatype body =
    Snapshot_json snapshot
  | Error_json jsstring
  | Success_json
  | Result_json inject_result

record response =
  status :: nat
  body :: body

text \<open>\<open>app.get('/snapshot')\<close>: the first active entry, else the first entry.\<close>

definition get_snapshot :: "state \<Rightarrow> response" where
  "get_snapshot st =
     (let vals = map (\<lambda>(k, a). heap st ! a) (cascades st);
          active = (case find (\<lambda>c. metadata.isActive (metadata c)) vals of
                      Some c \<Rightarrow> Some c
                    | None \<Rightarrow> (case vals of [] \<Rightarrow> None | c # cs \<Rightarrow> Some c))
      in case active of
           None \<Rightarrow> \<lparr>status = 503, body = Error_json (js ''No snapshot'')\<rparr>
         | Some c \<Rightarrow>
             (case snapshot c of
                None \<Rightarrow> \<lparr>status = 503, body = Error_json (js ''No snapshot'')\<rparr>
              | Some snap \<Rightarrow> \<lparr>status = 200, body = Snapshot_json snap\<rparr>))"

text \<open>
  The injection script runs in the page. The engine sees the evaluation rejected, with the
  message of the error, or a value: the script's \<open>{ok, reason}\<close>, or nothing usable.
\<close>

datatype inject_reply = Inject_rejected "jsstring option" | Inject_value "inject_result option"

text \<open>
  \<open>injectMessage\<close>: the \<open>try\<close> block yields its value or throws; the \<open>catch\<close> turns what was
  thrown into a failure result. \<open>Inl\<close> is an exception leaving the function.
\<close>

definition inject_try :: "inject_reply \<Rightarrow> jsstring option + inject_result" where
  "inject_try reply =
     (case reply of
        Inject_rejected e \<Rightarrow> Inl e
      | Inject_value None \<Rightarrow> Inr \<lparr>ok = False, reason = None\<rparr>
      | Inject_value (Some r) \<Rightarrow> Inr r)"

definition injectMessage ::
  "cdp \<Rightarrow> jsstring \<Rightarrow> (nat option \<Rightarrow> jsstring \<Rightarrow> inject_reply) \<Rightarrow> jsstring option + inject_result" where
  "injectMessage c text page =
     (case inject_try (page (rootContextId c) text) of
        Inl e \<Rightarrow> Inr \<lparr>ok = False, reason = e\<rparr>
      | Inr r \<Rightarrow> Inr r)"

text \<open>\<open>app.post('/send/:id')\<close>.\<close>

definition post_send ::
  "state \<Rightarrow> jsstring \<Rightarrow> jsstring \<Rightarrow> (nat option \<Rightarrow> jsstring \<Rightarrow> inject_reply)
     \<Rightarrow> jsstring option + response" where
  "post_send st req_id message page =
     (case map_of (cascades st) req_id of
        None \<Rightarrow> Inr \<lparr>status = 404, body = Error_json (js ''Cascade not found'')\<rparr>
      | Some a \<Rightarrow>
          (case injectMessage (cdp (heap st ! a)) message page of
             Inl e \<Rightarrow> Inl e
           | Inr result \<Rightarrow>
               if ok result then Inr \<lparr>status = 200, body = Success_json\<rparr>
               else Inr \<lparr>status = 500, body = Result_json result\<rparr>))"

section \<open>Notions used to state the properties of the routes\<close>

text \<open>\<open>Array.from(cascades.values())\<close>, and the two answers of the id-less snapshot route.\<close>

definition registry_values :: "state \<Rightarrow> cascade list" where
  "registry_values st = map (\<lambda>(k, a). heap st ! a) (cascades st)"

definition no_snapshot :: response where
  "no_snapshot = \<lparr>status = 503, body = Error_json (js ''No snapshot'')\<rparr>"

definition snapshot_or_503 :: "cascade \<Rightarrow> response" where
  "snapshot_or_503 c =
     (case snapshot c of None \<Rightarrow> no_snapshot
      | Some snap \<Rightarrow> \<lparr>status = 200, body = Snapshot_json snap\<rparr>)"

section \<open>Notions used to state the properties of discovery\<close>

text \<open>
  A candidate is successfully identified when the metadata refresh on the existing entry of
  its identity succeeds (the entry's socket is open and the cached context or some known
  context reports a chat root), or when a fresh connection is set up and some context of the
  fresh session reports a chat root. The refresh is judged in the state in which the loop
  reaches the candidate.
\<close>

definition refresh_succeeds :: "state \<Rightarrow> jsstring \<Rightarrow> outcome \<Rightarrow> bool" where
  "refresh_succeeds st k out \<longleftrightarrow>
     (case map_of (cascades st) k of
        None \<Rightarrow> False
      | Some a \<Rightarrow>
          (let c = cdp (heap st ! a) in
           readyState st (ws c) = OPEN \<and>
           ((case rootContextId c of None \<Rightarrow> False
             | Some r \<Rightarrow> r \<noteq> 0 \<and> is_found (refresh_probe out r)) \<or>
            list_ex (\<lambda>x. is_found (refresh_probe out x)) (contexts c))))"

definition fresh_succeeds :: "outcome \<Rightarrow> bool" where
  "fresh_succeeds out \<longleftrightarrow>
     (case connect out of
        Connected ctxs \<Rightarrow> list_ex (\<lambda>x. is_found (fresh_probe out x)) ctxs
      | _ \<Rightarrow> False)"

definition identified :: "state \<Rightarrow> target \<times> outcome \<Rightarrow> jsstring \<Rightarrow> bool" where
  "identified st x k \<longleftrightarrow>
     (case webSocketDebuggerUrl (fst x) of
        None \<Rightarrow> False
      | Some u \<Rightarrow> k = hashString u \<and> (refresh_succeeds st k (snd x) \<or> fresh_succeeds (snd x)))"

definition identified_keys :: "state \<times> (jsstring \<times> nat) list \<Rightarrow> (target \<times> outcome) list \<Rightarrow> jsstring set" where
  "identified_keys acc xs =
     {k. \<exists>i < length xs. \<exists>acc1. reconcile acc (take i xs) = Inr acc1 \<and> identified (fst acc1) (xs ! i) k}"

text \<open>
  The registry is well formed when its entries are distinct objects of the store and each
  owns a socket of the socket table. The identity of a candidate is the hash of its
  transport URL; what a pass reads of the entry under an identity is the entry's session and
  the state of its socket.
\<close>

definition wf_registry :: "state \<Rightarrow> bool" where
  "wf_registry st \<longleftrightarrow>
     distinct (map snd (cascades st)) \<and>
     list_all (\<lambda>p. snd p < length (heap st) \<and> ws (cdp (heap st ! snd p)) < length (sockets st))
       (cascades st)"

definition identity :: "target \<times> outcome \<Rightarrow> jsstring option" where
  "identity x = map_option hashString (webSocketDebuggerUrl (fst x))"

definition session_view :: "state \<Rightarrow> jsstring \<Rightarrow> (cdp \<times> ready_state) option" where
  "session_view st k =
     (case map_of (cascades st) k of
        None \<Rightarrow> None
      | Some a \<Rightarrow> Some (cdp (heap st ! a), readyState st (ws (cdp (heap st ! a)))))"

text \<open>
  What holds of the map under construction while a pass runs: \<open>n\<close> is the size of the store
  when the pass began; an entry of the new map is the old entry of its key or was created in
  this pass.
\<close>

definition pass_inv :: "nat \<Rightarrow> state \<Rightarrow> (jsstring \<times> nat) list \<Rightarrow> bool" where
  "pass_inv n st new \<longleftrightarrow>
     wf_registry st \<and> n \<le> length (heap st) \<and>
     list_all (\<lambda>p. snd p < n) (cascades st) \<and>
     distinct (map fst new) \<and> distinct (map snd new) \<and>
     list_all (\<lambda>p. snd p < length (heap st) \<and> ws (cdp (heap st ! snd p)) < length (sockets st) \<and>
                  (map_of (cascades st) (fst p) = Some (snd p) \<or> n \<le> snd p)) new"

text \<open>The open sockets that the engine holds to targets of one identity.\<close>

definition open_sockets :: "state \<Rightarrow> jsstring \<Rightarrow> (jsstring \<times> ready_state) list" where
  "open_sockets st k = filter (\<lambda>s. hashString (fst s) = k \<and> snd s = OPEN) (sockets st)"


section \<open>Example states\<close>

text \<open>
  The engine before its first pass; and the engine tracking one target whose chat is titled
  "Fix bug", with a stored snapshot. Then three captures of that target and two pages
  answering an injection.
\<close>

definition empty_state :: state where
  "empty_state = \<lparr>heap = [], sockets = [], cascades = []\<rparr>"

definition fix_bug_url :: jsstring where
  "fix_bug_url = js ''ws://127.0.0.1:9000/devtools/page/A1''"

definition hello_snap :: snapshot where
  "hello_snap = \<lparr>html = js ''<div id=\"root\">hello</div>'', bodyBg = js ''rgb(0, 0, 0)'',
     bodyColor = js ''rgb(255, 255, 255)'', title = Some (js ''Fix bug'')\<rparr>"

definition hello_bang_snap :: snapshot where
  "hello_bang_snap = hello_snap\<lparr>html := js ''<div id=\"root\">hello!</div>''\<rparr>"

definition retitled_snap :: snapshot where
  "retitled_snap = hello_bang_snap\<lparr>title := Some (js ''Fix login'')\<rparr>"

definition fix_bug_entry :: cascade where
  "fix_bug_entry =
     \<lparr>cascade_id = hashString fix_bug_url,
      cdp = \<lparr>ws = 0, contexts = [1], rootContextId = Some 1\<rparr>,
      metadata = \<lparr>windowTitle = Some (js ''workbench''), chatTitle = js ''Fix bug'',
         isActive = True, app = Antigravity, rootElementId = Some (js ''cascade''),
         rootSelector = js ''#cascade''\<rparr>,
      snapshot = Some hello_snap,
      css = Some [],
      snapshotHash = Some (hashString (html hello_snap))\<rparr>"

definition fix_bug_state :: state where
  "fix_bug_state =
     \<lparr>heap = [fix_bug_entry], sockets = [(fix_bug_url, OPEN)],
      cascades = [(hashString fix_bug_url, 0)]\<rparr>"

definition silent_page :: "nat option \<Rightarrow> jsstring \<Rightarrow> inject_reply" where
  "silent_page ctx text = Inject_value None"

definition broken_page :: "nat option \<Rightarrow> jsstring \<Rightarrow> inject_reply" where
  "broken_page ctx text = Inject_rejected (Some (js ''Cannot find context with specified id''))"


text \<open>
  Two targets of one port, the answers of their pages, and the states that the passes below
  lead to.
\<close>

definition other_url :: jsstring where
  "other_url = js ''ws://127.0.0.1:9000/devtools/page/B2''"

definition workbench_url :: jsstring where
  "workbench_url = js ''vscode-file://vscode-app/out/vs/code/electron-browser/workbench/workbench.html''"

definition fix_bug_target :: target where
  "fix_bug_target = \<lparr>url = Some workbench_url, target_title = Some (js ''shop - Antigravity''),
     webSocketDebuggerUrl = Some fix_bug_url\<rparr>"

definition other_target :: target where
  "other_target = \<lparr>url = Some workbench_url, target_title = Some (js ''blog - Antigravity''),
     webSocketDebuggerUrl = Some other_url\<rparr>"

definition other_meta :: page_meta where
  "other_meta = \<lparr>page_meta.app = Cursor,
     page_meta.rootElementId = Some (js ''workbench.panel.aichat.view''),
     page_meta.rootSelector = js ''[id^=\"workbench.panel.aichat\"]'',
     page_meta.chatTitle = js ''Write post'', page_meta.isActive = False\<rparr>"

definition probe_not_found :: "nat \<Rightarrow> probe_reply" where
  "probe_not_found ctx = Not_found"

definition probe_fix_bug :: "nat \<Rightarrow> probe_reply" where
  "probe_fix_bug ctx = Found stale_meta"

definition probe_other :: "nat \<Rightarrow> probe_reply" where
  "probe_other ctx = Found other_meta"

definition reconnect_outcome :: outcome where
  "reconnect_outcome = \<lparr>refresh_probe = probe_not_found, connect = Connected [1],
     fresh_probe = probe_fix_bug, css_answer = Css_value None\<rparr>"

definition refresh_outcome :: outcome where
  "refresh_outcome = \<lparr>refresh_probe = probe_fix_bug, connect = Refused,
     fresh_probe = probe_not_found, css_answer = Css_rejected\<rparr>"

definition fresh_outcome :: outcome where
  "fresh_outcome = \<lparr>refresh_probe = probe_not_found, connect = Connected [1],
     fresh_probe = probe_other, css_answer = Css_value None\<rparr>"

definition fresh_fix_bug_entry :: cascade where
  "fresh_fix_bug_entry =
     \<lparr>cascade_id = hashString fix_bug_url,
      cdp = \<lparr>ws = 1, contexts = [1], rootContextId = Some 1\<rparr>,
      metadata = \<lparr>windowTitle = Some (js ''shop - Antigravity''), chatTitle = js ''Fix bug'',
         isActive = True, app = Antigravity, rootElementId = Some (js ''cascade''),
         rootSelector = js ''#cascade''\<rparr>,
      snapshot = None,
      css = Some [],
      snapshotHash = None\<rparr>"

definition reconnected_state :: state where
  "reconnected_state =
     \<lparr>heap = [fix_bug_entry, fresh_fix_bug_entry],
      sockets = [(fix_bug_url, OPEN), (fix_bug_url, OPEN)],
      cascades = [(hashString fix_bug_url, 1)]\<rparr>"

definition other_entry :: cascade where
  "other_entry =
     \<lparr>cascade_id = hashString other_url,
      cdp = \<lparr>ws = 1, contexts = [1], rootContextId = Some 1\<rparr>,
      metadata = \<lparr>windowTitle = Some (js ''blog - Antigravity''), chatTitle = js ''Write post'',
         isActive = False, app = Cursor,
         rootElementId = Some (js ''workbench.panel.aichat.view''),
         rootSelector = js ''[id^=\"workbench.panel.aichat\"]''\<rparr>,
      snapshot = None,
      css = Some [],
      snapshotHash = None\<rparr>"

definition swapped_state :: state where
  "swapped_state =
     \<lparr>heap = [fix_bug_entry, other_entry],
      sockets = [(fix_bug_url, CLOSING), (other_url, OPEN)],
      cascades = [(hashString other_url, 1)]\<rparr>"

definition both_state :: state where
  "both_state =
     \<lparr>heap = [fix_bug_entry, other_entry],
      sockets = [(fix_bug_url, OPEN), (other_url, OPEN)],
      cascades = [(hashString fix_bug_url, 0), (hashString other_url, 1)]\<rparr>"

definition closed_state :: state where
  "closed_state =
     \<lparr>heap = [fix_bug_entry], sockets = [(fix_bug_url, CLOSING)], cascades = []\<rparr>"


section \<open>Properties of the change hash\<close>

lemma word_of_int_to_int32: "(word_of_int (to_int32 x) :: 32 word) = word_of_int x"
  by (simp add: to_int32_def)

lemma hash_step_word:
  "(word_of_int (hash_step h c) :: 32 word) = 31 * word_of_int h + ucast c"
  by (simp add: hash_step_def Let_def word_of_int_to_int32 wi_hom_syms)

lemma mult31_cancel: "(31 :: 32 word) * a = 31 * b \<Longrightarrow> a = b"
proof -
  assume h: "(31 :: 32 word) * a = 31 * b"
  have inv: "(3186588639 :: 32 word) * 31 = 1" by simp
  have "3186588639 * (31 * a) = 3186588639 * (31 * b)" using h by simp
  then have "(3186588639 * 31) * a = (3186588639 * 31) * b"
    by (simp only: mult.assoc)
  then show "a = b" by (simp only: inv mult_1)
qed

lemma hash_loop_word:
  "(word_of_int (hash_loop h s) :: 32 word) = hash_word (word_of_int h) s"
  by (induction s arbitrary: h) (simp_all add: hash_word_def hash_step_word)

lemma hash_word_inj: "hash_word a s = hash_word b s \<Longrightarrow> a = b"
proof (induction s arbitrary: a b)
  case Nil
  then show ?case by (simp add: hash_word_def)
next
  case (Cons c cs)
  from Cons.prems have "hash_word (31 * a + ucast c) cs = hash_word (31 * b + ucast c) cs"
    by (simp add: hash_word_def)
  then have "31 * a + (ucast c :: 32 word) = 31 * b + ucast c" by (rule Cons.IH)
  then show ?case by (simp add: mult31_cancel)
qed

lemma ucast_16_32_inj: "(ucast (c :: 16 word) :: 32 word) = ucast d \<Longrightarrow> c = d"
proof -
  assume "(ucast c :: 32 word) = ucast d"
  then have "(ucast (ucast c :: 32 word) :: 16 word) = ucast (ucast d :: 32 word)" by simp
  then show "c = d" by (simp add: ucast_up_ucast_id is_up)
qed

lemma hash_word_sensitive:
  assumes "c \<noteq> d"
  shows "hash_word h (xs @ c # ys) \<noteq> hash_word h (xs @ d # ys)"
proof
  assume eq: "hash_word h (xs @ c # ys) = hash_word h (xs @ d # ys)"
  have "hash_word (31 * hash_word h xs + ucast c) ys = hash_word (31 * hash_word h xs + ucast d) ys"
    using eq by (simp add: hash_word_def)
  then have "31 * hash_word h xs + (ucast c :: 32 word) = 31 * hash_word h xs + ucast d"
    by (rule hash_word_inj)
  then have "(ucast c :: 32 word) = ucast d" by simp
  with assms show False by (simp add: ucast_16_32_inj)
qed

lemma to_int32_range: "- (2 ^ 31) \<le> to_int32 x \<and> to_int32 x < 2 ^ 31"
  unfolding to_int32_def using sint_range_size [of "word_of_int x :: 32 word"] by (simp add: word_size)

lemma to_int32_idem: "- (2 ^ 31) \<le> x \<Longrightarrow> x < 2 ^ 31 \<Longrightarrow> to_int32 x = x"
  unfolding to_int32_def by (simp add: signed_take_bit_int_eq_self sint_sbintrunc')

lemma hash_loop_range:
  "- (2 ^ 31) \<le> h \<Longrightarrow> h < 2 ^ 31 \<Longrightarrow> - (2 ^ 31) \<le> hash_loop h s \<and> hash_loop h s < 2 ^ 31"
proof (induction s arbitrary: h)
  case Nil then show ?case by simp
next
  case (Cons c cs)
  have "- (2 ^ 31) \<le> hash_step h c \<and> hash_step h c < 2 ^ 31"
    unfolding hash_step_def Let_def by (rule to_int32_range)
  then show ?case using Cons.IH [of "hash_step h c"] by simp
qed

lemma hash_loop_sint: "hash_loop 0 s = sint (hash_word 0 s)"
proof -
  have r: "- (2 ^ 31) \<le> hash_loop 0 s \<and> hash_loop 0 s < 2 ^ 31"
    by (rule hash_loop_range) simp_all
  have "sint (hash_word 0 s) = sint (word_of_int (hash_loop 0 s) :: 32 word)"
    by (simp add: hash_loop_word)
  also have "\<dots> = to_int32 (hash_loop 0 s)" by (simp add: to_int32_def)
  also have "\<dots> = hash_loop 0 s" using r by (simp add: to_int32_idem)
  finally show ?thesis by simp
qed

lemma unat_digit36: "d < 36 \<Longrightarrow> unat (digit36 d) = (if d < 10 then 48 + d else 87 + d)"
  by (simp add: digit36_def unat_of_nat del: of_nat_add of_nat_numeral)

lemma undigit36_digit36: "d < 36 \<Longrightarrow> undigit36 (digit36 d) = d"
  by (simp add: undigit36_def unat_digit36)

lemma digit36_not_minus: "d < 36 \<Longrightarrow> digit36 d \<noteq> 45"
proof
  assume "d < 36" and "digit36 d = 45"
  then have "unat (digit36 d) = 45" by simp
  with \<open>d < 36\<close> show False by (simp add: unat_digit36 split: if_splits)
qed

lemma val36_snoc: "val36 (s @ [c]) = 36 * val36 s + undigit36 c"
  by (simp add: val36_def)

lemma val36_digits36: "val36 (digits36 n) = n"
proof (induction n rule: digits36.induct)
  case (1 n)
  show ?case
  proof (cases "n < 36")
    case True
    then show ?thesis by (simp add: digits36.simps [of n] val36_def undigit36_digit36)
  next
    case False
    then have "val36 (digits36 n) = 36 * val36 (digits36 (n div 36)) + undigit36 (digit36 (n mod 36))"
      by (simp add: digits36.simps [of n] val36_snoc)
    also have "\<dots> = 36 * (n div 36) + n mod 36"
      using False "1.IH" by (simp add: undigit36_digit36)
    finally show ?thesis by simp
  qed
qed

lemma digits36_no_minus: "45 \<notin> set (digits36 n)"
proof (induction n rule: digits36.induct)
  case (1 n)
  show ?case
  proof (cases "n < 36")
    case True
    then show ?thesis using digit36_not_minus [of n] by (simp add: digits36.simps [of n])
  next
    case False
    then show ?thesis
      using "1.IH" digit36_not_minus [of "n mod 36"] by (simp add: digits36.simps [of n])
  qed
qed

lemma digits36_inj: "digits36 m = digits36 n \<Longrightarrow> m = n"
proof -
  assume "digits36 m = digits36 n"
  then have "val36 (digits36 m) = val36 (digits36 n)" by (rule arg_cong)
  then show "m = n" by (simp only: val36_digits36)
qed

lemma digits36_hd: "digits36 n \<noteq> 45 # s"
  using digits36_no_minus [of n] by auto

lemma toString36_inj: "toString36 i = toString36 j \<Longrightarrow> i = j"
proof -
  assume eq: "toString36 i = toString36 j"
  show "i = j"
  proof (cases "i < 0")
    case True
    show ?thesis
    proof (cases "j < 0")
      case True
      with \<open>i < 0\<close> eq have "nat (- i) = nat (- j)"
        by (simp add: toString36_def digits36_inj)
      with True \<open>i < 0\<close> show ?thesis by simp
    next
      case False
      with \<open>i < 0\<close> eq have "digits36 (nat j) = 45 # digits36 (nat (- i))"
        by (simp add: toString36_def)
      then show ?thesis by (simp add: digits36_hd)
    qed
  next
    case False
    show ?thesis
    proof (cases "j < 0")
      case True
      with \<open>\<not> i < 0\<close> eq have "digits36 (nat i) = 45 # digits36 (nat (- j))"
        by (simp add: toString36_def)
      then show ?thesis by (simp add: digits36_hd)
    next
      case False
      with \<open>\<not> i < 0\<close> eq have "nat i = nat j"
        by (simp add: toString36_def digits36_inj)
      with False \<open>\<not> i < 0\<close> show ?thesis by simp
    qed
  qed
qed

lemma hashString_eq_iff: "hashString s = hashString t \<longleftrightarrow> hash_word 0 s = hash_word 0 t"
proof
  assume "hashString s = hashString t"
  then have "hash_loop 0 s = hash_loop 0 t"
    unfolding hashString_def by (rule toString36_inj)
  then have "sint (hash_word 0 s) = sint (hash_word 0 t)" by (simp add: hash_loop_sint)
  then show "hash_word 0 s = hash_word 0 t" by (rule signed_word_eqI)
next
  assume "hash_word 0 s = hash_word 0 t"
  then show "hashString s = hashString t" by (simp add: hashString_def hash_loop_sint)
qed

text \<open>
  Claim C7. \<open>hashString\<close> is a function of its argument alone, so equal strings (the same
  transport URL, an unchanged snapshot) always get the same hash; replacing the code unit at
  any one position of a string by a different code unit changes the hash; and the hash is
  the base-36 numeral of the polynomial \<open>h \<mapsto> 31 * h + c\<close> folded over the code units in
  32-bit wrapping arithmetic, read as a signed integer.
\<close>

theorem hashString_deterministic_sensitive:
  "(\<forall>s t. s = t \<longrightarrow> hashString s = hashString t) \<and>
   (\<forall>s i c. i < length s \<and> c \<noteq> s ! i \<longrightarrow> hashString (s[i := c]) \<noteq> hashString s) \<and>
   (\<forall>s. hashString s = toString36 (sint (foldl (\<lambda>h c. 31 * h + ucast c) (0 :: 32 word) s)))"
proof (intro conjI allI impI)
  fix s t :: jsstring assume "s = t" then show "hashString s = hashString t" by simp
next
  fix s :: jsstring and i c assume h: "i < length s \<and> c \<noteq> s ! i"
  then have s: "s = take i s @ s ! i # drop (Suc i) s" by (simp add: id_take_nth_drop)
  from h have u: "s[i := c] = take i s @ c # drop (Suc i) s" by (simp add: upd_conv_take_nth_drop)
  have "hash_word 0 (take i s @ c # drop (Suc i) s) \<noteq> hash_word 0 (take i s @ s ! i # drop (Suc i) s)"
    using h by (intro hash_word_sensitive) simp
  then have "hash_word 0 (s[i := c]) \<noteq> hash_word 0 s" using s u by simp
  then show "hashString (s[i := c]) \<noteq> hashString s" by (simp add: hashString_eq_iff)
next
  fix s :: jsstring
  show "hashString s = toString36 (sint (foldl (\<lambda>h c. 31 * h + ucast c) (0 :: 32 word) s))"
    by (simp add: hashString_def hash_loop_sint hash_word_def)
qed

theorem hashString_deterministic_sensitive_witness:
  "4 < length (js ''hello'') \<and> of_char CHR ''p'' \<noteq> js ''hello'' ! 4 \<and>
   hashString ((js ''hello'')[4 := of_char CHR ''p'']) \<noteq> hashString (js ''hello'')"
proof -
  have h: "4 < length (js ''hello'') \<and> of_char CHR ''p'' \<noteq> js ''hello'' ! 4"
    by (simp add: js_def)
  from hashString_deterministic_sensitive
  have "\<forall>s i c. i < length s \<and> c \<noteq> s ! i \<longrightarrow> hashString (s[i := c]) \<noteq> hashString s"
    by (rule conjunct2 [THEN conjunct1])
  with h have "hashString ((js ''hello'')[4 := of_char CHR ''p'']) \<noteq> hashString (js ''hello'')"
    by blast
  with h show ?thesis by simp
qed

section \<open>Properties of the title validity filter\<close>

lemma unat_canonicalize:
  "unat (canonicalize c) = (if 97 \<le> unat c \<and> unat c \<le> 122 then unat c - 32 else unat c)"
proof (cases "97 \<le> c \<and> c \<le> 122")
  case True
  then have "(32 :: 16 word) \<le> c" by (simp add: word_le_nat_alt)
  then have "unat (c - 32) = unat c - 32" using unat_sub [of 32 c] by simp
  with True show ?thesis by (simp add: canonicalize_def word_le_nat_alt)
next
  case False
  then show ?thesis by (auto simp: canonicalize_def word_le_nat_alt)
qed

lemma unat_lower:
  "unat (lower c) = (if 65 \<le> unat c \<and> unat c \<le> 90 then unat c + 32 else unat c)"
proof (cases "65 \<le> c \<and> c \<le> 90")
  case True
  then have "unat c + unat (32 :: 16 word) < 2 ^ LENGTH(16)" by (simp add: word_le_nat_alt)
  then have "unat (c + 32) = unat c + 32" using unat_add_lem [of c 32] by simp
  with True show ?thesis by (simp add: lower_def word_le_nat_alt)
next
  case False
  then show ?thesis by (auto simp: lower_def word_le_nat_alt)
qed

lemma canonicalize_eq_lower:
  assumes "is_pat p"
  shows "canonicalize c = canonicalize p \<longleftrightarrow> lower c = p"
proof -
  from assms have p: "(97 \<le> unat p \<and> unat p \<le> 122) \<or> unat p = 32"
    by (auto simp: is_pat_def word_le_nat_alt)
  have "canonicalize c = canonicalize p \<longleftrightarrow> unat (canonicalize c) = unat (canonicalize p)"
    by (simp add: word_unat_eq_iff)
  also have "\<dots> \<longleftrightarrow> unat (lower c) = unat p"
    using p unfolding unat_canonicalize unat_lower by (auto split: if_splits)
  also have "\<dots> \<longleftrightarrow> lower c = p" by (simp add: word_unat_eq_iff)
  finally show ?thesis .
qed

lemma unat_is_space:
  "is_space c \<longleftrightarrow> unat c \<in> {9, 10, 11, 12, 13, 32, 160, 5760, 8232, 8233, 8239, 8287, 12288, 65279}
      \<or> (8192 \<le> unat c \<and> unat c \<le> 8202)"
  by (auto simp: is_space_def word_le_nat_alt word_unat_eq_iff)

lemma is_space_lower: "is_space (lower c) = is_space c"
  unfolding unat_is_space unat_lower by (auto split: if_splits)

lemma lower_32: "lower 32 = 32" by (simp add: lower_def)

lemma replace_spaces_map_lower:
  "replace_spaces (map lower s) = map lower (replace_spaces s)"
proof (induction s rule: replace_spaces.induct)
  case 1
  show ?case by simp
next
  case (2 c cs)
  have dw: "dropWhile is_space (map lower cs) = map lower (dropWhile is_space cs)"
    by (simp add: dropWhile_map comp_def is_space_lower)
  show ?case
  proof (cases "is_space c")
    case True
    with 2 dw show ?thesis by (simp add: is_space_lower lower_32)
  next
    case False
    with 2 show ?thesis by (simp add: is_space_lower)
  qed
qed

lemma trim_map_lower: "trim (map lower s) = map lower (trim s)"
  by (simp add: trim_def dropWhile_map comp_def is_space_lower rev_map)

lemma normalizeText_map_lower: "normalizeText (map lower s) = map lower (normalizeText s)"
  by (simp add: normalizeText_def replace_spaces_map_lower trim_map_lower)

lemma re_match_lits:
  "list_all (\<lambda>c. is_pat (of_char c)) p \<Longrightarrow>
   re_match (lits p @ rest) e t \<longleftrightarrow>
     length p \<le> length t \<and> map lower (take (length p) t) = js p \<and> re_match rest e (drop (length p) t)"
proof (induction p arbitrary: t)
  case Nil
  show ?case by (simp add: lits_def js_def)
next
  case (Cons a p)
  then have IH: "\<And>t. re_match (lits p @ rest) e t \<longleftrightarrow>
     length p \<le> length t \<and> map lower (take (length p) t) = js p \<and> re_match rest e (drop (length p) t)"
    by simp
  from Cons.prems have a: "is_pat (of_char a)" by simp
  show ?case
  proof (cases t)
    case Nil
    then show ?thesis by (simp add: lits_def)
  next
    case (Cons c cs)
    have "re_match (lits (a # p) @ rest) e (c # cs) \<longleftrightarrow>
            canonicalize c = canonicalize (of_char a) \<and> re_match (lits p @ rest) e cs"
      by (simp add: lits_def)
    also have "\<dots> \<longleftrightarrow> lower c = of_char a \<and> re_match (lits p @ rest) e cs"
      by (simp add: canonicalize_eq_lower [OF a])
    finally show ?thesis using Cons by (auto simp: IH js_def)
  qed
qed

lemma re_match_prefix:
  "list_all (\<lambda>c. is_pat (of_char c)) p \<Longrightarrow> re_match (lits p) False t \<longleftrightarrow> starts_with_ci p t"
  using re_match_lits [of p "[]" False t] by (simp add: starts_with_ci_def)

lemma re_match_prefix_opt:
  "list_all (\<lambda>c. is_pat (of_char c)) p \<Longrightarrow>
   re_match (lits p @ [Opt q]) False t \<longleftrightarrow> starts_with_ci p t"
proof -
  assume p: "list_all (\<lambda>c. is_pat (of_char c)) p"
  have "re_match [Opt q] False u" for u by (cases u) simp_all
  then show ?thesis using re_match_lits [OF p, of "[Opt q]" False t]
    by (simp add: starts_with_ci_def)
qed

lemma re_match_exact:
  "list_all (\<lambda>c. is_pat (of_char c)) p \<Longrightarrow> re_match (lits p) True t \<longleftrightarrow> equals_ci p t"
proof -
  assume p: "list_all (\<lambda>c. is_pat (of_char c)) p"
  have "re_match (lits p) True t \<longleftrightarrow>
          length p \<le> length t \<and> map lower (take (length p) t) = js p \<and> length t \<le> length p"
    using re_match_lits [OF p, of "[]" True t] by simp
  also have "\<dots> \<longleftrightarrow> map lower t = js p"
  proof
    assume a: "length p \<le> length t \<and> map lower (take (length p) t) = js p \<and> length t \<le> length p"
    then have "take (length p) t = t" by simp
    moreover from a have "map lower (take (length p) t) = js p" by blast
    ultimately show "map lower t = js p" by (simp only:)
  next
    assume h: "map lower t = js p"
    then have "length t = length p" using length_map [of lower t] by (simp add: js_def)
    with h show "length p \<le> length t \<and> map lower (take (length p) t) = js p \<and> length t \<le> length p"
      by simp
  qed
  finally show ?thesis by (simp add: equals_ci_def)
qed

lemma bad_match:
  "list_ex (\<lambda>re. re_match (fst re) (snd re) t) bad \<longleftrightarrow>
     starts_with_ci ''new chat'' t \<or> starts_with_ci ''new conversation'' t \<or>
     starts_with_ci ''past chat'' t \<or> starts_with_ci ''view all'' t \<or>
     starts_with_ci ''plan'' t \<or> equals_ci ''local'' t \<or>
     starts_with_ci ''run everything'' t \<or> equals_ci ''success'' t"
proof -
  have 1: "re_match (lits ''new chat'') False t \<longleftrightarrow> starts_with_ci ''new chat'' t"
    by (rule re_match_prefix) (simp add: is_pat_def)
  have 2: "re_match (lits ''new conversation'') False t \<longleftrightarrow> starts_with_ci ''new conversation'' t"
    by (rule re_match_prefix) (simp add: is_pat_def)
  have 3: "re_match (lits ''past chat'' @ [Opt (of_char CHR ''s'')]) False t \<longleftrightarrow> starts_with_ci ''past chat'' t"
    by (rule re_match_prefix_opt) (simp add: is_pat_def)
  have 4: "re_match (lits ''view all'') False t \<longleftrightarrow> starts_with_ci ''view all'' t"
    by (rule re_match_prefix) (simp add: is_pat_def)
  have 5: "re_match (lits ''plan'') False t \<longleftrightarrow> starts_with_ci ''plan'' t"
    by (rule re_match_prefix) (simp add: is_pat_def)
  have 6: "re_match (lits ''local'') True t \<longleftrightarrow> equals_ci ''local'' t"
    by (rule re_match_exact) (simp add: is_pat_def)
  have 7: "re_match (lits ''run everything'') False t \<longleftrightarrow> starts_with_ci ''run everything'' t"
    by (rule re_match_prefix) (simp add: is_pat_def)
  have 8: "re_match (lits ''success'') True t \<longleftrightarrow> equals_ci ''success'' t"
    by (rule re_match_exact) (simp add: is_pat_def)
  show ?thesis unfolding bad_def by (simp only: list_ex_Nil_iff list_ex_Cons_iff fst_conv snd_conv 1 2 3 4 5 6 7 8 simp_thms)
qed

lemma any_casing_normalized:
  assumes "map lower v = js p" and "normalizeText (js p) = js p"
  shows "map lower (normalizeText v) = js p"
  using assms normalizeText_map_lower [of v] by simp

lemma any_casing_starts:
  assumes "map lower v = js p" and "normalizeText (js p) = js p"
  shows "starts_with_ci p (normalizeText v) \<and> length (normalizeText v) = length p"
proof -
  have m: "map lower (normalizeText v) = js p" using assms by (rule any_casing_normalized)
  then have "length (map lower (normalizeText v)) = length (js p)" by simp
  then have l: "length (normalizeText v) = length p" by (simp add: js_def)
  with m show ?thesis by (simp add: starts_with_ci_def)
qed

lemma ltrim_replace_spaces_id:
  "d = [] \<or> \<not> is_space (hd d) \<Longrightarrow> dropWhile is_space (replace_spaces d) = replace_spaces d"
  by (cases d) auto

lemma no_leading_space: "dropWhile is_space s = [] \<or> \<not> is_space (hd (dropWhile is_space s))"
  using hd_dropWhile [of is_space s] by blast

lemma ltrim_replace_spaces:
  "dropWhile is_space (replace_spaces s) = replace_spaces (dropWhile is_space s)"
proof (cases s)
  case Nil
  then show ?thesis by simp
next
  case (Cons c cs)
  show ?thesis
  proof (cases "is_space c")
    case True
    have "is_space 32" by (simp add: is_space_def)
    with True Cons show ?thesis
      using ltrim_replace_spaces_id [OF no_leading_space [of cs]] by simp
  next
    case False
    with Cons show ?thesis by simp
  qed
qed

lemma replace_spaces_word:
  "replace_spaces cs =
     takeWhile (\<lambda>x. \<not> is_space x) cs @ replace_spaces (dropWhile (\<lambda>x. \<not> is_space x) cs)"
  by (induction cs rule: replace_spaces.induct) auto

lemma rtrim_append:
  "rev (dropWhile P (rev (a @ b))) =
     (if dropWhile P (rev b) = [] then rev (dropWhile P (rev a)) else a @ rev (dropWhile P (rev b)))"
  by (auto simp: dropWhile_append)

lemma rtrim_word:
  "\<not> is_space c \<Longrightarrow>
   rev (dropWhile is_space (rev (c # takeWhile (\<lambda>x. \<not> is_space x) cs))) =
     c # takeWhile (\<lambda>x. \<not> is_space x) cs"
proof (induction cs arbitrary: c)
  case Nil
  then show ?case by simp
next
  case (Cons a cs)
  show ?case
  proof (cases "is_space a")
    case True
    with Cons.prems show ?thesis by simp
  next
    case False
    from Cons.IH [OF False] have ih: "rev (dropWhile is_space (rev (a # takeWhile (\<lambda>x. \<not> is_space x) cs))) =
      a # takeWhile (\<lambda>x. \<not> is_space x) cs" .
    have "rev (dropWhile is_space (rev ([c] @ (a # takeWhile (\<lambda>x. \<not> is_space x) cs)))) =
      [c] @ (a # takeWhile (\<lambda>x. \<not> is_space x) cs)"
      unfolding rtrim_append using ih by (auto simp del: rev.simps append.simps)
    with False show ?thesis by simp
  qed
qed

lemma join_words_Cons:
  "rest \<noteq> [] \<Longrightarrow> join_words (w # rest) = w @ 32 # join_words rest"
  by (cases rest) simp_all

lemma join_words_nonempty: "w \<noteq> [] \<Longrightarrow> join_words (w # rest) \<noteq> []"
  by (cases rest) simp_all

lemma split_words_ltrim: "split_words (dropWhile is_space s) = split_words s"
  by (induction s) simp_all

lemma join_split_Nil: "join_words (split_words s) = [] \<Longrightarrow> split_words s = []"
proof (induction s rule: split_words.induct)
  case 1
  show ?case by simp
next
  case (2 c cs)
  show ?case
  proof (cases "is_space c")
    case True
    with 2 show ?thesis by simp
  next
    case False
    with "2.prems" join_words_nonempty [of "c # takeWhile (\<lambda>x. \<not> is_space x) cs"]
    show ?thesis by simp
  qed
qed

lemma replace_spaces_gap:
  "replace_spaces (dropWhile (\<lambda>x. \<not> is_space x) cs) =
     (if dropWhile (\<lambda>x. \<not> is_space x) cs = [] then []
      else 32 # replace_spaces (dropWhile is_space (dropWhile (\<lambda>x. \<not> is_space x) cs)))"
proof (cases "dropWhile (\<lambda>x. \<not> is_space x) cs")
  case Nil
  show ?thesis unfolding Nil by simp
next
  case (Cons a r)
  with hd_dropWhile [of "\<lambda>x. \<not> is_space x" cs] have "is_space a" by simp
  with Cons show ?thesis by simp
qed

lemma rtrim_replace_spaces:
  "rev (dropWhile is_space (rev (replace_spaces (dropWhile is_space s)))) =
     join_words (split_words s)"
proof (induction s rule: split_words.induct)
  case 1
  show ?case by simp
next
  case (2 c cs)
  show ?case
  proof (cases "is_space c")
    case True
    with 2 show ?thesis by simp
  next
    case False
    let ?w = "c # takeWhile (\<lambda>x. \<not> is_space x) cs"
    let ?r = "dropWhile (\<lambda>x. \<not> is_space x) cs"
    let ?X = "replace_spaces (dropWhile is_space ?r)"
    have sp: "is_space 32" by (simp add: is_space_def)
    from "2.IH"(2) [OF False]
    have ih: "rev (dropWhile is_space (rev ?X)) = join_words (split_words ?r)" .
    have rs: "replace_spaces (dropWhile is_space (c # cs)) = ?w @ replace_spaces ?r"
      using False replace_spaces_word [of cs] by simp
    have sw: "split_words (c # cs) = ?w # split_words ?r" using False by simp
    have w: "rev (dropWhile is_space (rev ?w)) = ?w" using False by (rule rtrim_word)
    show ?thesis
    proof (cases "?r = []")
      case True
      have "split_words ?r = []" unfolding True by simp
      then have "join_words (split_words (c # cs)) = ?w" by (simp only: sw join_words.simps)
      moreover have "replace_spaces (dropWhile is_space (c # cs)) = ?w"
        unfolding rs True by simp
      ultimately show ?thesis by (simp only: w)
    next
      case r: False
      then have g: "replace_spaces ?r = 32 # ?X" using replace_spaces_gap [of cs] by simp
      show ?thesis
      proof (cases "join_words (split_words ?r) = []")
        case True
        then have e: "split_words ?r = []" by (rule join_split_Nil)
        have "rev (dropWhile is_space (rev ?X)) = []" unfolding ih by (rule True)
        then have x: "dropWhile is_space (rev ?X) = []" by (simp only: rev_is_Nil_conv simp_thms)
        then have a: "\<forall>y \<in> set (rev ?X). is_space y" by (simp only: dropWhile_eq_Nil_conv simp_thms)
        have "dropWhile is_space (rev (32 # ?X)) = dropWhile is_space (rev ?X @ [32])"
          by (simp only: rev.simps)
        also have "\<dots> = dropWhile is_space [32]"
          using a by (intro dropWhile_append2) blast
        also have "\<dots> = []" using sp by simp
        finally have z: "dropWhile is_space (rev (32 # ?X)) = []" .
        have "rev (dropWhile is_space (rev (?w @ 32 # ?X))) = rev (dropWhile is_space (rev ?w))"
          by (simp only: rtrim_append z refl if_True)
        then have "rev (dropWhile is_space (rev (?w @ 32 # ?X))) = ?w" by (simp only: w)
        moreover have "join_words (split_words (c # cs)) = ?w" by (simp only: sw e join_words.simps)
        ultimately show ?thesis by (simp only: rs g)
      next
        case j: False
        then have ne: "split_words ?r \<noteq> []" by auto
        have "rev (dropWhile is_space (rev ?X)) \<noteq> []" unfolding ih by (rule j)
        then have d: "dropWhile is_space (rev ?X) \<noteq> []" by (simp only: rev_is_Nil_conv simp_thms)
        then have n: "\<not> (\<forall>x \<in> set (rev ?X). is_space x)" by (simp only: dropWhile_eq_Nil_conv simp_thms)
        have "dropWhile is_space (rev (32 # ?X)) = dropWhile is_space (rev ?X @ [32])"
          by (simp only: rev.simps)
        also have "\<dots> = dropWhile is_space (rev ?X) @ [32]"
          using n by (simp only: dropWhile_append if_False simp_thms)
        finally have d2: "dropWhile is_space (rev (32 # ?X)) = dropWhile is_space (rev ?X) @ [32]" .
        then have "dropWhile is_space (rev (32 # ?X)) \<noteq> []" by simp
        then have "rev (dropWhile is_space (rev (?w @ 32 # ?X))) =
            ?w @ rev (dropWhile is_space (rev (32 # ?X)))"
          by (simp only: rtrim_append if_False simp_thms)
        also have "\<dots> = ?w @ rev (dropWhile is_space (rev ?X) @ [32])" by (simp only: d2)
        also have "\<dots> = ?w @ 32 # rev (dropWhile is_space (rev ?X))" by simp
        also have "\<dots> = ?w @ 32 # join_words (split_words ?r)" by (simp only: ih)
        finally have "rev (dropWhile is_space (rev (?w @ 32 # ?X))) =
            ?w @ 32 # join_words (split_words ?r)" .
        moreover have "join_words (split_words (c # cs)) = ?w @ 32 # join_words (split_words ?r)"
          unfolding sw using ne by (rule join_words_Cons)
        ultimately show ?thesis by (simp only: rs g)
      qed
    qed
  qed
qed

lemma normalizeText_words: "normalizeText v = join_words (split_words v)"
  unfolding normalizeText_def trim_def ltrim_replace_spaces by (rule rtrim_replace_spaces)

lemma split_words_runs:
  "(\<forall>w \<in> set (split_words s). w \<noteq> [] \<and> (\<forall>c \<in> set w. \<not> is_space c)) \<and>
   concat (split_words s) = filter (\<lambda>c. \<not> is_space c) s"
proof (induction s rule: split_words.induct)
  case 1
  show ?case by simp
next
  case (2 c cs)
  show ?case
  proof (cases "is_space c")
    case True
    with 2 show ?thesis by simp
  next
    case False
    let ?t = "takeWhile (\<lambda>x. \<not> is_space x) cs"
    let ?d = "dropWhile (\<lambda>x. \<not> is_space x) cs"
    have t: "\<forall>x \<in> set ?t. \<not> is_space x" by (auto dest: set_takeWhileD)
    then have ft: "filter (\<lambda>c. \<not> is_space c) ?t = ?t" by (rule filter_True)
    have "filter (\<lambda>c. \<not> is_space c) cs = filter (\<lambda>c. \<not> is_space c) (?t @ ?d)"
      by (simp only: takeWhile_dropWhile_id)
    also have "\<dots> = ?t @ filter (\<lambda>c. \<not> is_space c) ?d"
      by (simp only: filter_append ft)
    finally have f: "filter (\<lambda>c. \<not> is_space c) cs = ?t @ filter (\<lambda>c. \<not> is_space c) ?d" .
    from "2.IH"(2) [OF False]
    have ih: "(\<forall>w \<in> set (split_words ?d). w \<noteq> [] \<and> (\<forall>c \<in> set w. \<not> is_space c))"
      and ic: "concat (split_words ?d) = filter (\<lambda>c. \<not> is_space c) ?d" by blast+
    have sw: "split_words (c # cs) = (c # ?t) # split_words ?d" using False by simp
    have h: "c # ?t \<noteq> [] \<and> (\<forall>x \<in> set (c # ?t). \<not> is_space x)"
      using t False by simp
    have 1: "\<forall>w \<in> set (split_words (c # cs)). w \<noteq> [] \<and> (\<forall>c \<in> set w. \<not> is_space c)"
    proof
      fix w assume "w \<in> set (split_words (c # cs))"
      then have "w = c # ?t \<or> w \<in> set (split_words ?d)" unfolding sw by simp
      then show "w \<noteq> [] \<and> (\<forall>c \<in> set w. \<not> is_space c)"
      proof
        assume "w = c # ?t" with h show ?thesis by blast
      next
        assume "w \<in> set (split_words ?d)" with ih show ?thesis by (rule bspec)
      qed
    qed
    have "concat (split_words (c # cs)) = (c # ?t) @ concat (split_words ?d)"
      unfolding sw by simp
    also have "\<dots> = (c # ?t) @ filter (\<lambda>c. \<not> is_space c) ?d" by (simp only: ic)
    also have "\<dots> = c # filter (\<lambda>c. \<not> is_space c) cs" by (simp only: f append_Cons)
    also have "\<dots> = filter (\<lambda>c. \<not> is_space c) (c # cs)" using False by simp
    finally have 2: "concat (split_words (c # cs)) = filter (\<lambda>c. \<not> is_space c) (c # cs)" .
    from 1 2 show ?thesis by (rule conjI)
  qed
qed

text \<open>
  Claim C6. The filter accepts a string exactly when its normalisation (white space
  collapsed and trimmed) has between 3 and 80 code units and matches none of the eight
  boilerplate patterns, letter case ignored; the patterns for "local" and "success" match
  the whole text, the six others match at its start. The normalisation of a string is its
  words, the maximal runs free of white space, joined by single spaces. In particular a
  text that normalises to fewer than 3 or more than 80 code units is rejected, and so are
  "New Chat" and "Plan" in any letter casing, with or without white space around them.
\<close>

theorem isGoodTitle_iff:
  "(isGoodTitle v \<longleftrightarrow>
      3 \<le> length (normalizeText v) \<and> length (normalizeText v) \<le> 80 \<and>
      \<not> (starts_with_ci ''new chat'' (normalizeText v) \<or>
         starts_with_ci ''new conversation'' (normalizeText v) \<or>
         starts_with_ci ''past chat'' (normalizeText v) \<or>
         starts_with_ci ''view all'' (normalizeText v) \<or>
         starts_with_ci ''plan'' (normalizeText v) \<or>
         equals_ci ''local'' (normalizeText v) \<or>
         starts_with_ci ''run everything'' (normalizeText v) \<or>
         equals_ci ''success'' (normalizeText v))) \<and>
   (length (normalizeText v) < 3 \<or> 80 < length (normalizeText v) \<longrightarrow> \<not> isGoodTitle v) \<and>
   (map lower v = js ''new chat'' \<longrightarrow> \<not> isGoodTitle v) \<and>
   (map lower v = js ''plan'' \<longrightarrow> \<not> isGoodTitle v) \<and>
   normalizeText v = join_words (split_words v) \<and>
   (\<forall>w \<in> set (split_words v). w \<noteq> [] \<and> (\<forall>c \<in> set w. \<not> is_space c)) \<and>
   concat (split_words v) = filter (\<lambda>c. \<not> is_space c) v \<and>
   (map lower (normalizeText v) = js ''new chat'' \<longrightarrow> \<not> isGoodTitle v) \<and>
   (map lower (normalizeText v) = js ''plan'' \<longrightarrow> \<not> isGoodTitle v) \<and>
   (\<forall>c. is_space c \<longleftrightarrow>
      unat c \<in> {9, 10, 11, 12, 13, 32, 160, 5760, 8232, 8233, 8239, 8287, 12288, 65279} \<or>
      (8192 \<le> unat c \<and> unat c \<le> 8202))"
proof -
  have iff: "isGoodTitle v \<longleftrightarrow>
      3 \<le> length (normalizeText v) \<and> length (normalizeText v) \<le> 80 \<and>
      \<not> (starts_with_ci ''new chat'' (normalizeText v) \<or>
         starts_with_ci ''new conversation'' (normalizeText v) \<or>
         starts_with_ci ''past chat'' (normalizeText v) \<or>
         starts_with_ci ''view all'' (normalizeText v) \<or>
         starts_with_ci ''plan'' (normalizeText v) \<or>
         equals_ci ''local'' (normalizeText v) \<or>
         starts_with_ci ''run everything'' (normalizeText v) \<or>
         equals_ci ''success'' (normalizeText v))"
    unfolding isGoodTitle_def Let_def bad_match by auto
  have short: "length (normalizeText v) < 3 \<or> 80 < length (normalizeText v) \<longrightarrow> \<not> isGoodTitle v"
    using iff by auto
  have n1: "normalizeText (js ''new chat'') = js ''new chat''"
    by (simp add: normalizeText_def trim_def js_def is_space_def)
  have n2: "normalizeText (js ''plan'') = js ''plan''"
    by (simp add: normalizeText_def trim_def js_def is_space_def)
  have c1: "map lower v = js ''new chat'' \<longrightarrow> \<not> isGoodTitle v"
    using any_casing_starts [of v "''new chat''", OF _ n1] iff by blast
  have c2: "map lower v = js ''plan'' \<longrightarrow> \<not> isGoodTitle v"
    using any_casing_starts [of v "''plan''", OF _ n2] iff by blast
  have s1: "starts_with_ci ''new chat'' (normalizeText v)" if "map lower (normalizeText v) = js ''new chat''"
  proof -
    from that have "length (map lower (normalizeText v)) = length (js ''new chat'')" by simp
    then have "length (normalizeText v) = length ''new chat''" by (simp add: js_def)
    with that show ?thesis by (simp add: starts_with_ci_def)
  qed
  have s2: "starts_with_ci ''plan'' (normalizeText v)" if "map lower (normalizeText v) = js ''plan''"
  proof -
    from that have "length (map lower (normalizeText v)) = length (js ''plan'')" by simp
    then have "length (normalizeText v) = length ''plan''" by (simp add: js_def)
    with that show ?thesis by (simp add: starts_with_ci_def)
  qed
  have d1: "map lower (normalizeText v) = js ''new chat'' \<longrightarrow> \<not> isGoodTitle v"
    using s1 iff by blast
  have d2: "map lower (normalizeText v) = js ''plan'' \<longrightarrow> \<not> isGoodTitle v"
    using s2 iff by blast
  note w = normalizeText_words [of v]
  note r1 = split_words_runs [of v, THEN conjunct1]
  note r2 = split_words_runs [of v, THEN conjunct2]
  have sp: "\<forall>c. is_space c \<longleftrightarrow>
      unat c \<in> {9, 10, 11, 12, 13, 32, 160, 5760, 8232, 8233, 8239, 8287, 12288, 65279} \<or>
      (8192 \<le> unat c \<and> unat c \<le> 8202)"
    by (intro allI) (rule unat_is_space)
  show ?thesis
    by (intro conjI) (rule iff, rule short, rule c1, rule c2, rule w, rule r1, rule r2, rule d1, rule d2,
        rule sp)
qed

theorem isGoodTitle_iff_witness:
  "(length (normalizeText (js ''ab'')) < 3 \<and> \<not> isGoodTitle (js ''ab'')) \<and>
   (map lower (js ''New Chat'') = js ''new chat'' \<and> \<not> isGoodTitle (js ''New Chat'')) \<and>
   (map lower (js ''PLAN'') = js ''plan'' \<and> \<not> isGoodTitle (js ''PLAN'')) \<and>
   (normalizeText (js ''  ab  '') = js ''ab'' \<and> \<not> isGoodTitle (js ''  ab  '')) \<and>
   (normalizeText ([32, 9] @ js ''New'' @ [10, 160, 32] @ js ''CHAT'' @ [8232]) = js ''New CHAT'' \<and>
    \<not> isGoodTitle ([32, 9] @ js ''New'' @ [10, 160, 32] @ js ''CHAT'' @ [8232])) \<and>
   (normalizeText (js '' plan '') = js ''plan'' \<and> \<not> isGoodTitle (js '' plan '')) \<and>
   (normalizeText (js ''  Fix   bug '') = js ''Fix bug'' \<and> isGoodTitle (js ''  Fix   bug '')) \<and>
   normalizeText (js ''a'' @ [9, 10, 11, 12, 13, 32, 160, 5760, 8192, 8193, 8194, 8195, 8196, 8197,
       8198, 8199, 8200, 8201, 8202, 8232, 8233, 8239, 8287, 12288, 65279] @ js ''b'') = js ''a b''"
proof -
  note iff = isGoodTitle_iff [THEN conjunct1]
  note short = isGoodTitle_iff [THEN conjunct2, THEN conjunct1, rule_format]
  note chat = isGoodTitle_iff [THEN conjunct2, THEN conjunct2, THEN conjunct1, rule_format]
  note plan = isGoodTitle_iff [THEN conjunct2, THEN conjunct2, THEN conjunct2, THEN conjunct1,
      rule_format]
  note norm = isGoodTitle_iff [THEN conjunct2, THEN conjunct2, THEN conjunct2, THEN conjunct2,
      THEN conjunct1]
  note nchat = isGoodTitle_iff [THEN conjunct2, THEN conjunct2, THEN conjunct2, THEN conjunct2,
      THEN conjunct2, THEN conjunct2, THEN conjunct2, THEN conjunct1, rule_format]
  note nplan = isGoodTitle_iff [THEN conjunct2, THEN conjunct2, THEN conjunct2, THEN conjunct2,
      THEN conjunct2, THEN conjunct2, THEN conjunct2, THEN conjunct2, THEN conjunct1, rule_format]
  have 1: "length (normalizeText (js ''ab'')) < 3"
    by (simp add: normalizeText_def trim_def js_def is_space_def)
  have 2: "map lower (js ''New Chat'') = js ''new chat''"
    by (simp add: js_def lower_def)
  have 3: "map lower (js ''PLAN'') = js ''plan''"
    by (simp add: js_def lower_def)
  have a: "\<not> isGoodTitle (js ''ab'')" by (rule short) (rule disjI1, rule 1)
  have b: "\<not> isGoodTitle (js ''New Chat'')" by (rule chat) (rule 2)
  have c: "\<not> isGoodTitle (js ''PLAN'')" by (rule plan) (rule 3)
  have w4: "join_words (split_words (js ''  ab  '')) = js ''ab''"
    by (simp add: js_def is_space_def)
  have 4: "normalizeText (js ''  ab  '') = js ''ab''"
    using norm [of "js ''  ab  ''"] by (simp only: w4)
  have "length (normalizeText (js ''  ab  '')) < 3" unfolding 4 by (simp add: js_def)
  then have d: "\<not> isGoodTitle (js ''  ab  '')" by (intro short disjI1)
  have w5: "join_words (split_words ([32, 9] @ js ''New'' @ [10, 160, 32] @ js ''CHAT'' @ [8232])) =
      js ''New CHAT''" by (simp add: js_def is_space_def)
  have 5: "normalizeText ([32, 9] @ js ''New'' @ [10, 160, 32] @ js ''CHAT'' @ [8232]) = js ''New CHAT''"
    using norm [of "[32, 9] @ js ''New'' @ [10, 160, 32] @ js ''CHAT'' @ [8232]"] by (simp only: w5)
  have "map lower (normalizeText ([32, 9] @ js ''New'' @ [10, 160, 32] @ js ''CHAT'' @ [8232])) =
      js ''new chat''" unfolding 5 by (simp add: js_def lower_def)
  then have e: "\<not> isGoodTitle ([32, 9] @ js ''New'' @ [10, 160, 32] @ js ''CHAT'' @ [8232])"
    by (rule nchat)
  have w6: "join_words (split_words (js '' plan '')) = js ''plan''"
    by (simp add: js_def is_space_def)
  have 6: "normalizeText (js '' plan '') = js ''plan''"
    using norm [of "js '' plan ''"] by (simp only: w6)
  have "map lower (normalizeText (js '' plan '')) = js ''plan''"
    unfolding 6 by (simp add: js_def lower_def)
  then have f: "\<not> isGoodTitle (js '' plan '')" by (rule nplan)
  have w7: "join_words (split_words (js ''  Fix   bug '')) = js ''Fix bug''"
    by (simp add: js_def is_space_def)
  have 7: "normalizeText (js ''  Fix   bug '') = js ''Fix bug''"
    using norm [of "js ''  Fix   bug ''"] by (simp only: w7)
  have "3 \<le> length (js ''Fix bug'') \<and> length (js ''Fix bug'') \<le> 80 \<and>
      \<not> (starts_with_ci ''new chat'' (js ''Fix bug'') \<or>
         starts_with_ci ''new conversation'' (js ''Fix bug'') \<or>
         starts_with_ci ''past chat'' (js ''Fix bug'') \<or>
         starts_with_ci ''view all'' (js ''Fix bug'') \<or>
         starts_with_ci ''plan'' (js ''Fix bug'') \<or>
         equals_ci ''local'' (js ''Fix bug'') \<or>
         starts_with_ci ''run everything'' (js ''Fix bug'') \<or>
         equals_ci ''success'' (js ''Fix bug''))"
    by (simp add: starts_with_ci_def equals_ci_def js_def lower_def)
  then have g: "isGoodTitle (js ''  Fix   bug '')"
    unfolding iff [of "js ''  Fix   bug ''"] 7 .
  have w8: "join_words (split_words (js ''a'' @ [9, 10, 11, 12, 13, 32, 160, 5760, 8192, 8193, 8194,
       8195, 8196, 8197, 8198, 8199, 8200, 8201, 8202, 8232, 8233, 8239, 8287, 12288, 65279] @ js ''b''))
      = js ''a b''" by (simp add: js_def is_space_def)
  have 8: "normalizeText (js ''a'' @ [9, 10, 11, 12, 13, 32, 160, 5760, 8192, 8193, 8194, 8195, 8196,
       8197, 8198, 8199, 8200, 8201, 8202, 8232, 8233, 8239, 8287, 12288, 65279] @ js ''b'') = js ''a b''"
    using norm [of "js ''a'' @ [9, 10, 11, 12, 13, 32, 160, 5760, 8192, 8193, 8194, 8195, 8196,
       8197, 8198, 8199, 8200, 8201, 8202, 8232, 8233, 8239, 8287, 12288, 65279] @ js ''b''"]
    by (simp only: w8)
  show ?thesis
    by (intro conjI) (rule 1, rule a, rule 2, rule b, rule 3, rule c, rule 4, rule d, rule 5, rule e,
        rule 6, rule f, rule 7, rule g, rule 8)
qed

section \<open>Properties of metadata extraction\<close>

lemma scan_contexts_eq: "scan_contexts call ctxs = (first_found call ctxs, probed call ctxs)"
proof (induction ctxs)
  case Nil
  show ?case by (simp add: first_found_def probed_def)
next
  case (Cons a ctxs)
  show ?case
  proof (cases "call a")
    case (Found v)
    then show ?thesis by (simp add: first_found_def probed_def)
  next
    case Rejected
    with Cons show ?thesis by (simp add: first_found_def probed_def)
  next
    case Not_found
    with Cons show ?thesis by (simp add: first_found_def probed_def)
  qed
qed


lemma first_found_None: "first_found call ctxs = None \<longleftrightarrow> (\<forall>x \<in> set ctxs. \<not> is_found (call x))"
proof
  assume "first_found call ctxs = None"
  then show "\<forall>x \<in> set ctxs. \<not> is_found (call x)"
    unfolding first_found_def
    by (auto split: option.splits probe_reply.splits simp: find_None_iff find_Some_iff)
next
  assume "\<forall>x \<in> set ctxs. \<not> is_found (call x)"
  then have "find (\<lambda>x. is_found (call x)) ctxs = None" by (simp add: find_None_iff)
  then show "first_found call ctxs = None" by (simp add: first_found_def)
qed




section \<open>Properties of snapshot polling\<close>

lemma update_entry_cases:
  assumes "a < length (heap st)"
  shows "update_entry st a reply =
    (case captureHTML (cdp (heap st ! a)) reply of
       None \<Rightarrow> (st, [])
     | Some snap \<Rightarrow>
        if Some (hashString (html snap)) = snapshotHash (heap st ! a) then (st, [])
        else if (case title snap of None \<Rightarrow> False
                 | Some t \<Rightarrow> t \<noteq> [] \<and> t \<noteq> metadata.chatTitle (metadata (heap st ! a))) then
          (let st2 = st\<lparr>heap := (heap st)[a := (heap st ! a)
                  \<lparr>snapshot := Some snap, snapshotHash := Some (hashString (html snap)),
                   metadata := (metadata (heap st ! a))\<lparr>chatTitle := the (title snap)\<rparr>\<rparr>]\<rparr>
           in (st2, [broadcastCascadeList st2, Snapshot_update (cascade_id (heap st ! a))]))
        else (st\<lparr>heap := (heap st)[a := (heap st ! a)
                  \<lparr>snapshot := Some snap, snapshotHash := Some (hashString (html snap))\<rparr>]\<rparr>,
              [Snapshot_update (cascade_id (heap st ! a))]))"
  by (simp add: update_entry_def Let_def split: option.splits)

lemma hash_hello: "hashString (html hello_snap) = js ''q99ktl''"
  by (simp add: hello_snap_def js_def hashString_def hash_step_def to_int32_def toString36_def
      digits36.simps digit36_def)

lemma hash_hello_bang: "hashString (html hello_bang_snap) = js ''-35shwo''"
  by (simp add: hello_bang_snap_def hello_snap_def js_def hashString_def hash_step_def to_int32_def
      toString36_def digits36.simps digit36_def)

lemma hash_differs: "hashString (html hello_bang_snap) \<noteq> hashString (html hello_snap)"
  unfolding hash_hello hash_hello_bang by (simp add: js_def)

lemma capture_fix_bug: "captureHTML (cdp (heap fix_bug_state ! 0)) (Capture_value s) = Some s"
  by (simp add: captureHTML_def fix_bug_state_def fix_bug_entry_def truthy_id_def)

text \<open>
  Claim C3. In a poll of an entry that captures a snapshot, the stored snapshot and hash are
  replaced and a snapshot-changed event for the entry's id is emitted if and only if the
  hash of the captured HTML differs from the stored hash. A capture whose HTML equals the
  stored snapshot's HTML (the stored hash being the hash of the stored snapshot) changes
  nothing and emits nothing; a capture with a different hash emits exactly one
  snapshot-changed event for that id. A poll that captures nothing changes nothing.
\<close>

theorem update_entry_change_detection:
  assumes "a < length (heap st)" and "update_entry st a reply = (st1, evs)"
  shows
   "(\<forall>snap. captureHTML (cdp (heap st ! a)) reply = Some snap \<longrightarrow>
       (Some (hashString (html snap)) \<noteq> snapshotHash (heap st ! a) \<longrightarrow>
          snapshot (heap st1 ! a) = Some snap \<and>
          snapshotHash (heap st1 ! a) = Some (hashString (html snap)) \<and>
          count_list evs (Snapshot_update (cascade_id (heap st ! a))) = 1) \<and>
       (Some (hashString (html snap)) = snapshotHash (heap st ! a) \<longrightarrow> st1 = st \<and> evs = []) \<and>
       (\<forall>old. snapshot (heap st ! a) = Some old \<and> html old = html snap \<and>
              hash_consistent (heap st ! a) \<longrightarrow> st1 = st \<and> evs = [])) \<and>
    (captureHTML (cdp (heap st ! a)) reply = None \<longrightarrow> st1 = st \<and> evs = []) \<and>
    (Snapshot_update (cascade_id (heap st ! a)) \<in> set evs \<longleftrightarrow>
       (\<exists>snap. captureHTML (cdp (heap st ! a)) reply = Some snap \<and>
              Some (hashString (html snap)) \<noteq> snapshotHash (heap st ! a))) \<and>
    (hash_consistent (heap st ! a) \<longrightarrow> hash_consistent (heap st1 ! a))"
proof (cases "captureHTML (cdp (heap st ! a)) reply")
  case None
  with assms have "st1 = st" "evs = []" by (simp_all add: update_entry_cases)
  with None show ?thesis by simp
next
  case (Some snap)
  show ?thesis
  proof (cases "Some (hashString (html snap)) = snapshotHash (heap st ! a)")
    case True
    with Some assms have "st1 = st" "evs = []" by (simp_all add: update_entry_cases)
    with Some True show ?thesis by simp
  next
    case False
    with Some assms(2) have
      "heap st1 ! a = (heap st ! a)\<lparr>snapshot := Some snap, snapshotHash := Some (hashString (html snap))\<rparr> \<or>
       heap st1 ! a = (heap st ! a)\<lparr>snapshot := Some snap, snapshotHash := Some (hashString (html snap)),
                   metadata := (metadata (heap st ! a))\<lparr>chatTitle := the (title snap)\<rparr>\<rparr>"
      and "evs = [Snapshot_update (cascade_id (heap st ! a))] \<or>
           (\<exists>l. evs = [Cascade_list l, Snapshot_update (cascade_id (heap st ! a))])"
      using assms(1)
      by (auto simp: update_entry_cases [OF assms(1)] Let_def broadcastCascadeList_def split: if_splits)
    with Some False show ?thesis
      by (auto simp: hash_consistent_def)
  qed
qed

theorem update_entry_change_detection_witness:
  "0 < length (heap fix_bug_state) \<and>
   update_entry fix_bug_state 0 (Capture_value hello_snap) = (fix_bug_state, []) \<and>
   count_list (snd (update_entry fix_bug_state 0 (Capture_value hello_bang_snap)))
     (Snapshot_update (hashString fix_bug_url)) = 1 \<and>
   snapshot (heap (fst (update_entry fix_bug_state 0 (Capture_value hello_bang_snap))) ! 0)
     = Some hello_bang_snap"
proof -
  have l: "0 < length (heap fix_bug_state)" by (simp add: fix_bug_state_def)
  have c: "heap fix_bug_state ! 0 = fix_bug_entry" by (simp add: fix_bug_state_def)
  have same: "Some (hashString (html hello_snap)) = snapshotHash (heap fix_bug_state ! 0)"
    by (simp add: c fix_bug_entry_def)
  have diff: "Some (hashString (html hello_bang_snap)) \<noteq> snapshotHash (heap fix_bug_state ! 0)"
    using hash_differs by (simp add: c fix_bug_entry_def)
  have id: "cascade_id (heap fix_bug_state ! 0) = hashString fix_bug_url"
    by (simp add: c fix_bug_entry_def)
  have 1: "update_entry fix_bug_state 0 (Capture_value hello_snap) = (fix_bug_state, [])"
    using update_entry_change_detection [OF l, of "Capture_value hello_snap"
        "fst (update_entry fix_bug_state 0 (Capture_value hello_snap))"
        "snd (update_entry fix_bug_state 0 (Capture_value hello_snap))"]
      capture_fix_bug [of hello_snap] same
    by (simp add: prod_eq_iff)
  have 2: "count_list (snd (update_entry fix_bug_state 0 (Capture_value hello_bang_snap)))
     (Snapshot_update (hashString fix_bug_url)) = 1 \<and>
   snapshot (heap (fst (update_entry fix_bug_state 0 (Capture_value hello_bang_snap))) ! 0)
     = Some hello_bang_snap"
    using update_entry_change_detection [OF l, of "Capture_value hello_bang_snap"
        "fst (update_entry fix_bug_state 0 (Capture_value hello_bang_snap))"
        "snd (update_entry fix_bug_state 0 (Capture_value hello_bang_snap))"]
      capture_fix_bug [of hello_bang_snap] diff id
    by simp
  from l 1 2 show ?thesis by simp
qed

text \<open>
  Claim C10. When the captured snapshot's hash differs from the stored hash and the snapshot
  carries a non-empty title different from the entry's chat title, the poll overwrites the
  chat title with the snapshot's title and emits a full list broadcast, which shows the new
  title for an entry of the registry, before the snapshot-changed event.
\<close>

theorem update_entry_title_change:
  assumes "a < length (heap st)"
    and "captureHTML (cdp (heap st ! a)) reply = Some snap"
    and "Some (hashString (html snap)) \<noteq> snapshotHash (heap st ! a)"
    and "title snap = Some t" and "t \<noteq> []"
    and "t \<noteq> metadata.chatTitle (metadata (heap st ! a))"
    and "update_entry st a reply = (st1, evs)"
  shows "metadata.chatTitle (metadata (heap st1 ! a)) = t \<and>
         evs = [broadcastCascadeList st1, Snapshot_update (cascade_id (heap st ! a))] \<and>
         cascades st1 = cascades st \<and>
         (\<forall>k. (k, a) \<in> set (cascades st) \<longrightarrow>
            (\<exists>l e. broadcastCascadeList st1 = Cascade_list l \<and> e \<in> set l \<and>
                   entry_id e = cascade_id (heap st ! a) \<and> entry_title e = t))"
proof -
  let ?c2 = "(heap st ! a)\<lparr>snapshot := Some snap, snapshotHash := Some (hashString (html snap)),
                   metadata := (metadata (heap st ! a))\<lparr>chatTitle := t\<rparr>\<rparr>"
  from assms have st1: "st1 = st\<lparr>heap := (heap st)[a := ?c2]\<rparr>"
    and evs: "evs = [broadcastCascadeList st1, Snapshot_update (cascade_id (heap st ! a))]"
    by (auto simp: update_entry_cases Let_def)
  have h: "heap st1 ! a = ?c2" using st1 assms(1) by simp
  have l: "\<exists>l e. broadcastCascadeList st1 = Cascade_list l \<and> e \<in> set l \<and>
                   entry_id e = cascade_id (heap st ! a) \<and> entry_title e = t"
    if "(k, a) \<in> set (cascades st)" for k
  proof -
    let ?f = "\<lambda>(k, a). let c = heap st1 ! a in
        \<lparr>entry_id = cascade_id c, entry_title = metadata.chatTitle (metadata c),
         entry_window = windowTitle (metadata c), entry_active = metadata.isActive (metadata c)\<rparr>"
    have "?f (k, a) \<in> set (map ?f (cascades st1))" using that st1 by (simp add: image_iff) force
    moreover have "entry_id (?f (k, a)) = cascade_id (heap st ! a)" "entry_title (?f (k, a)) = t"
      using h by simp_all
    ultimately show ?thesis unfolding broadcastCascadeList_def by blast
  qed
  from h evs st1 l show ?thesis by simp
qed


theorem update_entry_title_change_witness:
  "0 < length (heap fix_bug_state) \<and>
   captureHTML (cdp (heap fix_bug_state ! 0)) (Capture_value retitled_snap) = Some retitled_snap \<and>
   Some (hashString (html retitled_snap)) \<noteq> snapshotHash (heap fix_bug_state ! 0) \<and>
   title retitled_snap = Some (js ''Fix login'') \<and> js ''Fix login'' \<noteq> [] \<and>
   js ''Fix login'' \<noteq> metadata.chatTitle (metadata (heap fix_bug_state ! 0)) \<and>
   metadata.chatTitle (metadata (heap (fst (update_entry fix_bug_state 0 (Capture_value retitled_snap))) ! 0))
     = js ''Fix login'' \<and>
   snd (update_entry fix_bug_state 0 (Capture_value retitled_snap)) =
     [broadcastCascadeList (fst (update_entry fix_bug_state 0 (Capture_value retitled_snap))),
      Snapshot_update (hashString fix_bug_url)]"
proof -
  have l: "0 < length (heap fix_bug_state)" by (simp add: fix_bug_state_def)
  have c: "heap fix_bug_state ! 0 = fix_bug_entry" by (simp add: fix_bug_state_def)
  have cap: "captureHTML (cdp (heap fix_bug_state ! 0)) (Capture_value retitled_snap) = Some retitled_snap"
    by (rule capture_fix_bug)
  have "html retitled_snap = html hello_bang_snap" by (simp add: retitled_snap_def)
  then have diff: "Some (hashString (html retitled_snap)) \<noteq> snapshotHash (heap fix_bug_state ! 0)"
    using hash_differs by (simp add: c fix_bug_entry_def)
  have t: "title retitled_snap = Some (js ''Fix login'')" by (simp add: retitled_snap_def)
  have ne: "js ''Fix login'' \<noteq> []" by (simp add: js_def)
  have nt: "js ''Fix login'' \<noteq> metadata.chatTitle (metadata (heap fix_bug_state ! 0))"
    by (simp add: c fix_bug_entry_def js_def)
  have id: "cascade_id (heap fix_bug_state ! 0) = hashString fix_bug_url"
    by (simp add: c fix_bug_entry_def)
  have e: "update_entry fix_bug_state 0 (Capture_value retitled_snap) =
      (fst (update_entry fix_bug_state 0 (Capture_value retitled_snap)),
       snd (update_entry fix_bug_state 0 (Capture_value retitled_snap)))" by simp
  from update_entry_title_change [OF l cap diff t ne nt e] id l cap diff t ne nt
  show ?thesis by simp
qed


section \<open>Properties of the routes\<close>

lemma find_first:
  "P c \<Longrightarrow> \<forall>x \<in> set pre. \<not> P x \<Longrightarrow> find P (pre @ c # post) = Some c"
  by (induction pre) simp_all

lemma get_snapshot_eq:
  "get_snapshot st =
     (case find (\<lambda>c. metadata.isActive (metadata c)) (registry_values st) of
        Some c \<Rightarrow> snapshot_or_503 c
      | None \<Rightarrow> (case registry_values st of [] \<Rightarrow> no_snapshot | c # cs \<Rightarrow> snapshot_or_503 c))"
  by (simp add: get_snapshot_def registry_values_def snapshot_or_503_def no_snapshot_def Let_def
      split: option.splits list.splits)

text \<open>
  Claim C9. The id-less snapshot route answers with the stored snapshot of the first entry,
  in registry order, whose metadata marks it active, and of the first entry when none is
  active; when the registry is empty or the selected entry has no stored snapshot it answers
  status 503.
\<close>

theorem get_snapshot_first_active:
  "(\<forall>pre c post. registry_values st = pre @ c # post \<and> metadata.isActive (metadata c) \<and>
        (\<forall>x \<in> set pre. \<not> metadata.isActive (metadata x))
      \<longrightarrow> get_snapshot st = snapshot_or_503 c) \<and>
   (\<forall>c rest. registry_values st = c # rest \<and>
        (\<forall>x \<in> set (registry_values st). \<not> metadata.isActive (metadata x))
      \<longrightarrow> get_snapshot st = snapshot_or_503 c) \<and>
   (registry_values st = [] \<longrightarrow> get_snapshot st = no_snapshot) \<and>
   (\<forall>c. snapshot c = None \<longrightarrow> snapshot_or_503 c = no_snapshot) \<and>
   (\<forall>c snap. snapshot c = Some snap \<longrightarrow>
        snapshot_or_503 c = \<lparr>status = 200, body = Snapshot_json snap\<rparr>) \<and>
   status no_snapshot = 503"
proof (intro conjI allI impI)
  fix pre c post
  assume h: "registry_values st = pre @ c # post \<and> metadata.isActive (metadata c) \<and>
        (\<forall>x \<in> set pre. \<not> metadata.isActive (metadata x))"
  then have "find (\<lambda>c. metadata.isActive (metadata c)) (registry_values st) = Some c"
    by (simp add: find_first)
  then show "get_snapshot st = snapshot_or_503 c" by (simp add: get_snapshot_eq)
next
  fix c rest
  assume h: "registry_values st = c # rest \<and>
        (\<forall>x \<in> set (registry_values st). \<not> metadata.isActive (metadata x))"
  then have "find (\<lambda>c. metadata.isActive (metadata c)) (registry_values st) = None"
    by (simp add: find_None_iff)
  with h show "get_snapshot st = snapshot_or_503 c" by (simp add: get_snapshot_eq)
next
  assume "registry_values st = []"
  then show "get_snapshot st = no_snapshot" by (simp add: get_snapshot_eq)
next
  fix c :: cascade assume "snapshot c = None"
  then show "snapshot_or_503 c = no_snapshot" by (simp add: snapshot_or_503_def)
next
  fix c :: cascade and snap assume "snapshot c = Some snap"
  then show "snapshot_or_503 c = \<lparr>status = 200, body = Snapshot_json snap\<rparr>"
    by (simp add: snapshot_or_503_def)
next
  show "status no_snapshot = 503" by (simp add: no_snapshot_def)
qed

theorem get_snapshot_first_active_witness:
  "registry_values fix_bug_state = [] @ fix_bug_entry # [] \<and>
   metadata.isActive (metadata fix_bug_entry) \<and>
   get_snapshot fix_bug_state = \<lparr>status = 200, body = Snapshot_json hello_snap\<rparr> \<and>
   registry_values empty_state = [] \<and> get_snapshot empty_state = no_snapshot"
proof -
  have v: "registry_values fix_bug_state = [] @ fix_bug_entry # []"
    by (simp add: registry_values_def fix_bug_state_def)
  have a: "metadata.isActive (metadata fix_bug_entry)" by (simp add: fix_bug_entry_def)
  have s: "snapshot fix_bug_entry = Some hello_snap" by (simp add: fix_bug_entry_def)
  have e: "registry_values empty_state = []" by (simp add: registry_values_def empty_state_def)
  from get_snapshot_first_active [of fix_bug_state] v a
  have "get_snapshot fix_bug_state = snapshot_or_503 fix_bug_entry" by fastforce
  moreover from get_snapshot_first_active [of fix_bug_state] s
  have "snapshot_or_503 fix_bug_entry = \<lparr>status = 200, body = Snapshot_json hello_snap\<rparr>" by blast
  moreover from get_snapshot_first_active [of empty_state] e
  have "get_snapshot empty_state = no_snapshot" by blast
  ultimately show ?thesis using v a e by simp
qed

lemma injectMessage_total: "\<exists>r. injectMessage c text page = Inr r"
  by (simp add: injectMessage_def split: sum.splits)

text \<open>
  Claim C5, as the code has it. The send route always answers and never lets an exception
  escape. For an id that is not a key of the registry the answer is status 404 with the
  body \<open>{error: 'Cascade not found'}\<close>; a rejected evaluation is answered with status 500
  and \<open>{ok: false, reason: <message>}\<close>, and a failure result of the page script (no editor
  found) is passed on with status 500.
\<close>

theorem post_send_explicit_failure:
  "(\<exists>resp. post_send st req_id message page = Inr resp) \<and>
   (map_of (cascades st) req_id = None \<longrightarrow>
      post_send st req_id message page =
        Inr \<lparr>status = 404, body = Error_json (js ''Cascade not found'')\<rparr>) \<and>
   (\<forall>a e. map_of (cascades st) req_id = Some a \<and>
          page (rootContextId (cdp (heap st ! a))) message = Inject_rejected e \<longrightarrow>
      post_send st req_id message page =
        Inr \<lparr>status = 500, body = Result_json \<lparr>ok = False, reason = e\<rparr>\<rparr>) \<and>
   (\<forall>a r. map_of (cascades st) req_id = Some a \<and>
          page (rootContextId (cdp (heap st ! a))) message = Inject_value (Some r) \<and> \<not> ok r \<longrightarrow>
      post_send st req_id message page = Inr \<lparr>status = 500, body = Result_json r\<rparr>)"
proof (intro conjI allI impI)
  show "\<exists>resp. post_send st req_id message page = Inr resp"
  proof (cases "map_of (cascades st) req_id")
    case None
    then show ?thesis by (simp add: post_send_def)
  next
    case (Some a)
    obtain r where "injectMessage (cdp (heap st ! a)) message page = Inr r"
      using injectMessage_total by blast
    with Some show ?thesis by (simp add: post_send_def)
  qed
next
  assume "map_of (cascades st) req_id = None"
  then show "post_send st req_id message page =
        Inr \<lparr>status = 404, body = Error_json (js ''Cascade not found'')\<rparr>"
    by (simp add: post_send_def)
next
  fix a e
  assume "map_of (cascades st) req_id = Some a \<and>
          page (rootContextId (cdp (heap st ! a))) message = Inject_rejected e"
  then show "post_send st req_id message page =
        Inr \<lparr>status = 500, body = Result_json \<lparr>ok = False, reason = e\<rparr>\<rparr>"
    by (simp add: post_send_def injectMessage_def inject_try_def)
next
  fix a r
  assume "map_of (cascades st) req_id = Some a \<and>
          page (rootContextId (cdp (heap st ! a))) message = Inject_value (Some r) \<and> \<not> ok r"
  then show "post_send st req_id message page = Inr \<lparr>status = 500, body = Result_json r\<rparr>"
    by (simp add: post_send_def injectMessage_def inject_try_def)
qed

theorem post_send_explicit_failure_witness:
  "map_of (cascades empty_state) (js ''missing-id'') = None \<and>
   post_send empty_state (js ''missing-id'') (js ''hi'') silent_page =
     Inr \<lparr>status = 404, body = Error_json (js ''Cascade not found'')\<rparr> \<and>
   map_of (cascades fix_bug_state) (hashString fix_bug_url) = Some 0 \<and>
   broken_page (rootContextId (cdp (heap fix_bug_state ! 0))) (js ''hi'') =
     Inject_rejected (Some (js ''Cannot find context with specified id'')) \<and>
   post_send fix_bug_state (hashString fix_bug_url) (js ''hi'') broken_page =
     Inr \<lparr>status = 500, body = Result_json
       \<lparr>ok = False, reason = Some (js ''Cannot find context with specified id'')\<rparr>\<rparr>"
proof -
  have m: "map_of (cascades empty_state) (js ''missing-id'') = None" by (simp add: empty_state_def)
  have k: "map_of (cascades fix_bug_state) (hashString fix_bug_url) = Some 0"
    by (simp add: fix_bug_state_def)
  have b: "broken_page (rootContextId (cdp (heap fix_bug_state ! 0))) (js ''hi'') =
     Inject_rejected (Some (js ''Cannot find context with specified id''))"
    by (simp add: broken_page_def)
  from post_send_explicit_failure [of empty_state "js ''missing-id''" "js ''hi''" silent_page] m
  have 1: "post_send empty_state (js ''missing-id'') (js ''hi'') silent_page =
     Inr \<lparr>status = 404, body = Error_json (js ''Cascade not found'')\<rparr>" by blast
  from post_send_explicit_failure [of fix_bug_state "hashString fix_bug_url" "js ''hi''" broken_page] k b
  have 2: "post_send fix_bug_state (hashString fix_bug_url) (js ''hi'') broken_page =
     Inr \<lparr>status = 500, body = Result_json
       \<lparr>ok = False, reason = Some (js ''Cannot find context with specified id'')\<rparr>\<rparr>" by blast
  from m 1 k b 2 show ?thesis by simp
qed


text \<open>
  Claim C5 as stated fails: for the id "missing-id" the answer is not the result
  \<open>{ok: false, reason: "not found"}\<close>.
\<close>

theorem post_send_missing_id_counterexample:
  "body (projr (post_send empty_state (js ''missing-id'') (js ''hi'') silent_page)) \<noteq>
     Result_json \<lparr>ok = False, reason = Some (js ''not found'')\<rparr> \<and>
   post_send empty_state (js ''missing-id'') (js ''hi'') silent_page =
     Inr \<lparr>status = 404, body = Error_json (js ''Cascade not found'')\<rparr>"
  by (simp add: post_send_def empty_state_def)

section \<open>Properties of discovery\<close>

lemma extractMetadata_None:
  "fst (snd (extractMetadata c call)) = None \<longleftrightarrow>
     \<not> ((case rootContextId c of None \<Rightarrow> False | Some r \<Rightarrow> r \<noteq> 0 \<and> is_found (call r)) \<or>
        list_ex (\<lambda>x. is_found (call x)) (contexts c))"
proof (cases "truthy_id (rootContextId c)")
  case False
  then have "fst (snd (extractMetadata c call)) = first_found call (contexts c)"
    by (simp add: extractMetadata_def cached_id_def scan_contexts_eq)
  with False show ?thesis
    by (auto simp: first_found_None list_ex_iff truthy_id_def split: option.splits)
next
  case True
  then obtain r where r: "rootContextId c = Some r" "r \<noteq> 0"
    by (auto simp: truthy_id_def split: option.splits)
  show ?thesis
  proof (cases "call r")
    case (Found v)
    with True r show ?thesis by (simp add: extractMetadata_def cached_id_def)
  next
    case Rejected
    with True r have "fst (snd (extractMetadata c call)) = first_found call (contexts c)"
      by (simp add: extractMetadata_def cached_id_def scan_contexts_eq)
    with Rejected r show ?thesis by (simp add: first_found_None list_ex_iff)
  next
    case Not_found
    with True r have "fst (snd (extractMetadata c call)) = first_found call (contexts c)"
      by (simp add: extractMetadata_def cached_id_def scan_contexts_eq)
    with Not_found r show ?thesis by (simp add: first_found_None list_ex_iff)
  qed
qed

lemma refresh_existing_result:
  "(snd (refresh_existing st k out) \<noteq> None \<longleftrightarrow> refresh_succeeds st k out) \<and>
   (\<forall>a. snd (refresh_existing st k out) = Some a \<longrightarrow> map_of (cascades st) k = Some a) \<and>
   cascades (fst (refresh_existing st k out)) = cascades st"
proof (cases "map_of (cascades st) k")
  case None
  then show ?thesis by (simp add: refresh_existing_def refresh_succeeds_def)
next
  case (Some a)
  show ?thesis
  proof (cases "readyState st (ws (cdp (heap st ! a))) = OPEN")
    case False
    with Some show ?thesis by (simp add: refresh_existing_def refresh_succeeds_def Let_def)
  next
    case True
    obtain c1 res sent where e: "extractMetadata (cdp (heap st ! a)) (refresh_probe out) = (c1, res, sent)"
      by (cases "extractMetadata (cdp (heap st ! a)) (refresh_probe out)") auto
    have n: "res = None \<longleftrightarrow>
       \<not> ((case rootContextId (cdp (heap st ! a)) of None \<Rightarrow> False
            | Some r \<Rightarrow> r \<noteq> 0 \<and> is_found (refresh_probe out r)) \<or>
          list_ex (\<lambda>x. is_found (refresh_probe out x)) (contexts (cdp (heap st ! a))))"
      using extractMetadata_None [of "cdp (heap st ! a)" "refresh_probe out"] e by simp
    show ?thesis
    proof (cases res)
      case None
      with Some True e n show ?thesis
        by (simp add: refresh_existing_def refresh_succeeds_def Let_def)
    next
      case (Some p)
      with \<open>map_of (cascades st) k = Some a\<close> True e n show ?thesis
        by (cases p) (simp add: refresh_existing_def refresh_succeeds_def Let_def)
    qed
  qed
qed

lemma connect_new_result:
  "snd (connect_new st new k u t out) =
     (if fresh_succeeds out then AList.update k (length (heap st)) new else new) \<and>
   cascades (fst (connect_new st new k u t out)) = cascades st"
proof (cases "connect out")
  case Refused
  then show ?thesis by (simp add: connect_new_def fresh_succeeds_def)
next
  case Enable_rejected
  then show ?thesis by (simp add: connect_new_def fresh_succeeds_def)
next
  case (Connected ctxs)
  let ?c0 = "\<lparr>ws = length (sockets st), contexts = ctxs, rootContextId = None\<rparr>"
  obtain c1 res sent where e: "extractMetadata ?c0 (fresh_probe out) = (c1, res, sent)"
    by (cases "extractMetadata ?c0 (fresh_probe out)") auto
  have n: "res = None \<longleftrightarrow> \<not> list_ex (\<lambda>x. is_found (fresh_probe out x)) ctxs"
    using extractMetadata_None [of ?c0 "fresh_probe out"] e by simp
  show ?thesis
  proof (cases res)
    case None
    with Connected e n show ?thesis by (simp add: connect_new_def fresh_succeeds_def Let_def)
  next
    case (Some p)
    with Connected e n show ?thesis
      by (cases p) (simp add: connect_new_def fresh_succeeds_def Let_def)
  qed
qed

lemma reconcile_target_keys:
  assumes "reconcile_target (st, new) x = Inr (st1, new1)"
  shows "fst ` set new1 = fst ` set new \<union> {k. identified st x k} \<and> cascades st1 = cascades st"
proof -
  obtain t out where x: "x = (t, out)" by (cases x)
  from assms x obtain u where u: "webSocketDebuggerUrl t = Some u"
    by (cases "webSocketDebuggerUrl t") (simp_all add: reconcile_target_def)
  let ?k = "hashString u"
  have id: "{k. identified st x k} = (if refresh_succeeds st ?k out \<or> fresh_succeeds out then {?k} else {})"
    using x u by (auto simp: identified_def)
  obtain st2 r where re: "refresh_existing st ?k out = (st2, r)"
    by (cases "refresh_existing st ?k out")
  from refresh_existing_result [of st ?k out] re
  have rr: "r \<noteq> None \<longleftrightarrow> refresh_succeeds st ?k out" and rc: "cascades st2 = cascades st"
    by simp_all
  show ?thesis
  proof (cases r)
    case (Some a)
    with assms x u re have "new1 = AList.update ?k a new" "st1 = st2"
      by (simp_all add: reconcile_target_def Let_def)
    with Some rr rc id show ?thesis by (simp add: dom_update)
  next
    case None
    with assms x u re have e: "(st1, new1) = connect_new st2 new ?k u t out"
      by (simp add: reconcile_target_def Let_def)
    from connect_new_result [of st2 new ?k u t out] e [symmetric]
    have "new1 = (if fresh_succeeds out then AList.update ?k (length (heap st2)) new else new)"
      and "cascades st1 = cascades st2" by simp_all
    with None rr rc id show ?thesis by (simp add: dom_update)
  qed
qed

lemma identified_keys_Nil: "identified_keys acc [] = {}"
  by (simp add: identified_keys_def)

lemma identified_keys_Cons:
  assumes "reconcile_target acc x = Inr acc1"
  shows "identified_keys acc (x # xs) = {k. identified (fst acc) x k} \<union> identified_keys acc1 xs"
proof (intro set_eqI iffI)
  fix k assume "k \<in> identified_keys acc (x # xs)"
  then obtain i acc2 where i: "i < length (x # xs)"
      and r: "reconcile acc (take i (x # xs)) = Inr acc2"
      and d: "identified (fst acc2) ((x # xs) ! i) k"
    unfolding identified_keys_def by blast
  show "k \<in> {k. identified (fst acc) x k} \<union> identified_keys acc1 xs"
  proof (cases i)
    case 0
    with r d show ?thesis by simp
  next
    case (Suc j)
    with i r d assms have "j < length xs" "reconcile acc1 (take j xs) = Inr acc2"
        "identified (fst acc2) (xs ! j) k" by simp_all
    then have "k \<in> identified_keys acc1 xs" unfolding identified_keys_def by blast
    then show ?thesis by simp
  qed
next
  fix k assume "k \<in> {k. identified (fst acc) x k} \<union> identified_keys acc1 xs"
  then consider "identified (fst acc) x k" | "k \<in> identified_keys acc1 xs" by blast
  then show "k \<in> identified_keys acc (x # xs)"
  proof cases
    case 1
    have "0 < length (x # xs)" "reconcile acc (take 0 (x # xs)) = Inr acc"
      "identified (fst acc) ((x # xs) ! 0) k" using 1 by simp_all
    then show ?thesis unfolding identified_keys_def by blast
  next
    case 2
    then obtain j acc2 where "j < length xs" "reconcile acc1 (take j xs) = Inr acc2"
        "identified (fst acc2) (xs ! j) k"
      unfolding identified_keys_def by blast
    with assms have "Suc j < length (x # xs)" "reconcile acc (take (Suc j) (x # xs)) = Inr acc2"
        "identified (fst acc2) ((x # xs) ! Suc j) k" by simp_all
    then show ?thesis unfolding identified_keys_def by blast
  qed
qed

lemma reconcile_keys:
  "reconcile (st, new) xs = Inr (st1, new1) \<Longrightarrow>
   fst ` set new1 = fst ` set new \<union> identified_keys (st, new) xs \<and> cascades st1 = cascades st"
proof (induction xs arbitrary: st new)
  case Nil
  then show ?case by (simp add: identified_keys_Nil)
next
  case (Cons x xs)
  from Cons.prems obtain st2 new2 where t: "reconcile_target (st, new) x = Inr (st2, new2)"
    by (cases "reconcile_target (st, new) x") auto
  with Cons.prems have "reconcile (st2, new2) xs = Inr (st1, new1)" by simp
  from Cons.IH [OF this] have
    ih: "fst ` set new1 = fst ` set new2 \<union> identified_keys (st2, new2) xs" "cascades st1 = cascades st2"
    by simp_all
  from reconcile_target_keys [OF t] have
    st: "fst ` set new2 = fst ` set new \<union> {k. identified st x k}" "cascades st2 = cascades st"
    by simp_all
  from identified_keys_Cons [OF t, of xs] ih st show ?case by auto
qed

lemma reconcile_completes:
  "\<forall>x \<in> set xs. webSocketDebuggerUrl (fst x) \<noteq> None \<Longrightarrow> \<exists>acc1. reconcile acc xs = Inr acc1"
proof (induction xs arbitrary: acc)
  case Nil
  show ?case by simp
next
  case (Cons x xs)
  then obtain u where "webSocketDebuggerUrl (fst x) = Some u" by auto
  then have "\<exists>acc2. reconcile_target acc x = Inr acc2"
    by (cases acc; cases x) (auto simp: reconcile_target_def Let_def split: prod.splits option.splits)
  then obtain acc2 where "reconcile_target acc x = Inr acc2" by blast
  with Cons show ?case by simp
qed

lemma reconcile_target_distinct:
  assumes "reconcile_target (st, new) x = Inr (st1, new1)" and "distinct (map fst new)"
  shows "distinct (map fst new1)"
proof -
  obtain t out where x: "x = (t, out)" by (cases x)
  from assms x obtain u where u: "webSocketDebuggerUrl t = Some u"
    by (cases "webSocketDebuggerUrl t") (simp_all add: reconcile_target_def)
  obtain st2 r where re: "refresh_existing st (hashString u) out = (st2, r)"
    by (cases "refresh_existing st (hashString u) out")
  show ?thesis
  proof (cases r)
    case (Some a)
    with assms x u re have "new1 = AList.update (hashString u) a new"
      by (simp add: reconcile_target_def Let_def)
    with assms(2) show ?thesis by (simp add: distinct_update)
  next
    case None
    with assms x u re have e: "(st1, new1) = connect_new st2 new (hashString u) u t out"
      by (simp add: reconcile_target_def Let_def)
    from connect_new_result [of st2 new "hashString u" u t out] e [symmetric]
    have "new1 = (if fresh_succeeds out then AList.update (hashString u) (length (heap st2)) new else new)"
      by simp
    with assms(2) show ?thesis by (simp add: distinct_update)
  qed
qed

lemma reconcile_distinct:
  "reconcile (st, new) xs = Inr (st1, new1) \<Longrightarrow> distinct (map fst new) \<Longrightarrow> distinct (map fst new1)"
proof (induction xs arbitrary: st new)
  case Nil
  then show ?case by simp
next
  case (Cons x xs)
  from Cons.prems obtain st2 new2 where t: "reconcile_target (st, new) x = Inr (st2, new2)"
    by (cases "reconcile_target (st, new) x") auto
  with Cons.prems have r: "reconcile (st2, new2) xs = Inr (st1, new1)" by simp
  from reconcile_target_distinct [OF t Cons.prems(2)] have "distinct (map fst new2)" .
  with Cons.IH [OF r] show ?case by simp
qed

lemma all_targets_unreachable: "\<forall>r \<in> set replies. r = Unreachable \<Longrightarrow> all_targets replies = []"
  by (induction replies) (simp_all add: all_targets_def)

lemma distinct_keys_length:
  assumes "distinct (map fst xs)" and "distinct (map fst ys)" and "fst ` set xs = fst ` set ys"
  shows "length xs = length ys"
proof -
  have "length (map fst xs) = card (set (map fst xs))"
    using assms(1) by (rule distinct_card [symmetric])
  moreover have "length (map fst ys) = card (set (map fst ys))"
    using assms(2) by (rule distinct_card [symmetric])
  moreover have "set (map fst xs) = set (map fst ys)" using assms(3) by simp
  ultimately have "length (map fst xs) = length (map fst ys)" by simp
  then show ?thesis by simp
qed

lemma workbench_targets: "is_workbench fix_bug_target" "is_workbench other_target"
  by (simp_all add: is_workbench_def fix_bug_target_def other_target_def workbench_url_def js_def)

lemma refresh_fails:
  "refresh_existing fix_bug_state (hashString fix_bug_url) reconnect_outcome = (fix_bug_state, None)"
  by (simp add: refresh_existing_def fix_bug_state_def fix_bug_entry_def readyState_def
      extractMetadata_def cached_id_def truthy_id_def reconnect_outcome_def probe_not_found_def)

lemma connect_succeeds:
  "connect_new fix_bug_state [] (hashString fix_bug_url) fix_bug_url fix_bug_target reconnect_outcome =
     (reconnected_state\<lparr>cascades := cascades fix_bug_state\<rparr>, [(hashString fix_bug_url, 1)])"
  by (simp add: connect_new_def fix_bug_state_def reconnect_outcome_def probe_fix_bug_def
      extractMetadata_def cached_id_def truthy_id_def cache_context_def captureCSS_def stale_meta_def
      fix_bug_target_def reconnected_state_def fresh_fix_bug_entry_def Let_def)

lemma hash_fix_bug_url: "hashString fix_bug_url = js ''-2zynto''"
  by (simp add: fix_bug_url_def js_def hashString_def hash_step_def to_int32_def toString36_def
      digits36.simps digit36_def)

lemma hash_other_url: "hashString other_url = js ''-2zynss''"
  by (simp add: other_url_def js_def hashString_def hash_step_def to_int32_def toString36_def
      digits36.simps digit36_def)

lemma ids_differ: "hashString other_url \<noteq> hashString fix_bug_url"
  unfolding hash_fix_bug_url hash_other_url by (simp add: js_def)

lemma other_not_registered:
  "refresh_existing fix_bug_state (hashString other_url) fresh_outcome = (fix_bug_state, None)"
  using ids_differ by (simp add: refresh_existing_def fix_bug_state_def)

lemma connect_other:
  "connect_new fix_bug_state new (hashString other_url) other_url other_target fresh_outcome =
     (\<lparr>heap = [fix_bug_entry, other_entry],
       sockets = [(fix_bug_url, OPEN), (other_url, OPEN)],
       cascades = cascades fix_bug_state\<rparr>, AList.update (hashString other_url) 1 new)"
  by (simp add: connect_new_def fix_bug_state_def fresh_outcome_def probe_other_def
      extractMetadata_def cached_id_def truthy_id_def cache_context_def captureCSS_def other_meta_def
      other_target_def other_entry_def Let_def)

lemma refresh_fix_bug:
  "refresh_existing fix_bug_state (hashString fix_bug_url) refresh_outcome = (fix_bug_state, Some 0)"
  by (simp add: refresh_existing_def fix_bug_state_def fix_bug_entry_def readyState_def
      extractMetadata_def cached_id_def truthy_id_def refresh_outcome_def probe_fix_bug_def stale_meta_def
      cache_context_def)

lemma swap_pass:
  "discover fix_bug_state [Listing [(other_target, fresh_outcome)]] = Inr (swapped_state, [])"
proof -
  have t: "all_targets [Listing [(other_target, fresh_outcome)]] = [(other_target, fresh_outcome)]"
    by (simp add: all_targets_def workbench_targets)
  have u: "webSocketDebuggerUrl other_target = Some other_url" by (simp add: other_target_def)
  have r: "reconcile (fix_bug_state, []) [(other_target, fresh_outcome)] =
      Inr (\<lparr>heap = [fix_bug_entry, other_entry],
             sockets = [(fix_bug_url, OPEN), (other_url, OPEN)],
             cascades = cascades fix_bug_state\<rparr>, [(hashString other_url, 1)])"
    by (simp add: reconcile_target_def u other_not_registered connect_other)
  show ?thesis unfolding discover_def t r using ids_differ
    by (simp add: cleanup_def fix_bug_state_def swapped_state_def Let_def ws_close_def
        fix_bug_entry_def)
qed

lemma both_pass:
  "discover fix_bug_state [Listing [(fix_bug_target, refresh_outcome), (other_target, fresh_outcome)],
      Unreachable] = Inr (both_state, [broadcastCascadeList both_state])"
proof -
  have t: "all_targets [Listing [(fix_bug_target, refresh_outcome), (other_target, fresh_outcome)],
      Unreachable] = [(fix_bug_target, refresh_outcome), (other_target, fresh_outcome)]"
    by (simp add: all_targets_def workbench_targets)
  have u: "webSocketDebuggerUrl other_target = Some other_url"
     "webSocketDebuggerUrl fix_bug_target = Some fix_bug_url"
    by (simp_all add: other_target_def fix_bug_target_def)
  have r1: "reconcile_target (fix_bug_state, []) (fix_bug_target, refresh_outcome) =
      Inr (fix_bug_state, [(hashString fix_bug_url, 0)])"
    by (simp add: reconcile_target_def u refresh_fix_bug)
  have r2: "reconcile_target (fix_bug_state, [(hashString fix_bug_url, 0)]) (other_target, fresh_outcome) =
      Inr (\<lparr>heap = [fix_bug_entry, other_entry],
             sockets = [(fix_bug_url, OPEN), (other_url, OPEN)],
             cascades = cascades fix_bug_state\<rparr>,
           [(hashString fix_bug_url, 0), (hashString other_url, 1)])"
    using ids_differ by (simp add: reconcile_target_def u other_not_registered connect_other)
  have r: "reconcile (fix_bug_state, []) [(fix_bug_target, refresh_outcome), (other_target, fresh_outcome)] =
      Inr (\<lparr>heap = [fix_bug_entry, other_entry],
             sockets = [(fix_bug_url, OPEN), (other_url, OPEN)],
             cascades = cascades fix_bug_state\<rparr>,
           [(hashString fix_bug_url, 0), (hashString other_url, 1)])"
    by (simp add: r1 r2)
  show ?thesis unfolding discover_def t r using ids_differ
    by (simp add: cleanup_def fix_bug_state_def both_state_def Let_def)
qed

lemma unreachable_pass:
  "discover fix_bug_state [Unreachable, Unreachable, Unreachable, Unreachable] =
     Inr (closed_state, [Cascade_list []])"
  by (simp add: discover_def all_targets_def cleanup_def fix_bug_state_def closed_state_def Let_def
      ws_close_def fix_bug_entry_def broadcastCascadeList_def)

lemma refresh_succeeds_view:
  "session_view st k = session_view st1 k \<Longrightarrow> refresh_succeeds st k out = refresh_succeeds st1 k out"
  by (auto simp: session_view_def refresh_succeeds_def Let_def split: option.splits)

lemma ws_extractMetadata: "ws (fst (extractMetadata c call)) = ws c"
  by (auto simp: extractMetadata_def cached_id_def Let_def
      split: option.splits probe_reply.splits prod.splits)

lemma ws_cache_context: "ws (cache_context c x) = ws c"
  by (simp add: cache_context_def)

lemma addresses_inj:
  assumes "distinct (map snd al)" and "map_of al k = Some a" and "map_of al k1 = Some a"
  shows "k = k1"
proof -
  from assms(2,3) have m: "(k, a) \<in> set al" "(k1, a) \<in> set al" by (auto dest: map_of_SomeD)
  from assms(1) have "inj_on snd (set al)" by (simp add: distinct_map)
  from inj_onD [OF this _ m] show ?thesis by simp
qed

lemma heap_update_frame:
  assumes "wf_registry st" and "map_of (cascades st) k = Some a"
    and "ws (cdp e) = ws (cdp (heap st ! a))"
  shows "wf_registry (st\<lparr>heap := (heap st)[a := e]\<rparr>) \<and>
         (\<forall>k1. k1 \<noteq> k \<longrightarrow> session_view (st\<lparr>heap := (heap st)[a := e]\<rparr>) k1 = session_view st k1)"
proof (intro conjI allI impI)
  have "ws (cdp ((heap st)[a := e] ! b)) = ws (cdp (heap st ! b))" if "b < length (heap st)" for b
    using that assms(3) by (cases "b = a") simp_all
  with assms(1) show "wf_registry (st\<lparr>heap := (heap st)[a := e]\<rparr>)"
    by (auto simp: wf_registry_def list_all_iff)
next
  fix k1 assume n: "k1 \<noteq> k"
  show "session_view (st\<lparr>heap := (heap st)[a := e]\<rparr>) k1 = session_view st k1"
  proof (cases "map_of (cascades st) k1")
    case None
    then show ?thesis by (simp add: session_view_def)
  next
    case (Some b)
    with assms(1,2) n have "b \<noteq> a"
      using addresses_inj [of "cascades st" k1 a k] by (auto simp: wf_registry_def)
    with Some show ?thesis by (simp add: session_view_def readyState_def)
  qed
qed

lemma refresh_existing_frame:
  assumes "wf_registry st"
  shows "wf_registry (fst (refresh_existing st k out)) \<and>
         (\<forall>k1. k1 \<noteq> k \<longrightarrow> session_view (fst (refresh_existing st k out)) k1 = session_view st k1)"
proof (cases "map_of (cascades st) k")
  case None
  with assms show ?thesis by (simp add: refresh_existing_def)
next
  case (Some a)
  show ?thesis
  proof (cases "readyState st (ws (cdp (heap st ! a))) = OPEN")
    case False
    with Some assms show ?thesis by (simp add: refresh_existing_def Let_def)
  next
    case True
    obtain c1 res sent where e: "extractMetadata (cdp (heap st ! a)) (refresh_probe out) = (c1, res, sent)"
      by (cases "extractMetadata (cdp (heap st ! a)) (refresh_probe out)") auto
    then have w: "ws c1 = ws (cdp (heap st ! a))"
      using ws_extractMetadata [of "cdp (heap st ! a)" "refresh_probe out"] by simp
    show ?thesis
    proof (cases res)
      case None
      with Some True e have "fst (refresh_existing st k out) = st\<lparr>heap := (heap st)[a := (heap st ! a)\<lparr>cdp := c1\<rparr>]\<rparr>"
        by (simp add: refresh_existing_def Let_def)
      moreover have "ws (cdp ((heap st ! a)\<lparr>cdp := c1\<rparr>)) = ws (cdp (heap st ! a))" using w by simp
      ultimately show ?thesis using heap_update_frame [OF assms Some] by simp
    next
      case (Some p)
      obtain v ctx where p: "p = (v, ctx)" by (cases p)
      let ?e = "(heap st ! a)
                       \<lparr>cdp := cache_context c1 ctx,
                        metadata := (metadata (heap st ! a))
                          \<lparr>chatTitle := page_meta.chatTitle v, isActive := page_meta.isActive v,
                           app := page_meta.app v, rootElementId := page_meta.rootElementId v,
                           rootSelector := page_meta.rootSelector v\<rparr>\<rparr>"
      from Some p \<open>map_of (cascades st) k = Some a\<close> True e
      have "fst (refresh_existing st k out) = st\<lparr>heap := (heap st)[a := ?e]\<rparr>"
        by (simp add: refresh_existing_def Let_def)
      moreover have "ws (cdp ?e) = ws (cdp (heap st ! a))" using w by (simp add: ws_cache_context)
      ultimately show ?thesis
        using heap_update_frame [OF assms \<open>map_of (cascades st) k = Some a\<close>, of ?e] by simp
    qed
  qed
qed

lemma ws_close_nth: "w1 \<noteq> w \<Longrightarrow> ws_close socks w ! w1 = socks ! w1"
  by (simp add: ws_close_def)

lemma length_ws_close: "length (ws_close socks w) = length socks"
  by (simp add: ws_close_def)

lemma connect_new_frame:
  assumes "wf_registry st"
  shows "wf_registry (fst (connect_new st new k u t out)) \<and>
         (\<forall>k1. session_view (fst (connect_new st new k u t out)) k1 = session_view st k1)"
proof -
  have frame: "wf_registry st1 \<and> (\<forall>k1. session_view st1 k1 = session_view st k1)"
    if "cascades st1 = cascades st" and "length (heap st) \<le> length (heap st1)"
      and "\<forall>a < length (heap st). heap st1 ! a = heap st ! a"
      and "length (sockets st) \<le> length (sockets st1)"
      and "\<forall>w < length (sockets st). sockets st1 ! w = sockets st ! w" for st1
  proof (intro conjI allI)
    show "wf_registry st1" using assms that
      by (auto simp: wf_registry_def list_all_iff)
  next
    fix k1
    show "session_view st1 k1 = session_view st k1"
    proof (cases "map_of (cascades st) k1")
      case None
      with that show ?thesis by (simp add: session_view_def)
    next
      case (Some a)
      then have "(k1, a) \<in> set (cascades st)" by (rule map_of_SomeD)
      with assms have "a < length (heap st)" "ws (cdp (heap st ! a)) < length (sockets st)"
        by (auto simp: wf_registry_def list_all_iff)
      with Some that show ?thesis by (simp add: session_view_def readyState_def)
    qed
  qed
  show ?thesis
  proof (cases "connect out")
    case Refused
    then have "fst (connect_new st new k u t out) = st\<lparr>sockets := sockets st @ [(u, CLOSED)]\<rparr>"
      by (simp add: connect_new_def)
    then show ?thesis using frame [of "st\<lparr>sockets := sockets st @ [(u, CLOSED)]\<rparr>"]
      by (simp add: nth_append)
  next
    case Enable_rejected
    then have "fst (connect_new st new k u t out) = st\<lparr>sockets := sockets st @ [(u, OPEN)]\<rparr>"
      by (simp add: connect_new_def)
    then show ?thesis using frame [of "st\<lparr>sockets := sockets st @ [(u, OPEN)]\<rparr>"]
      by (simp add: nth_append)
  next
    case (Connected ctxs)
    let ?c0 = "\<lparr>ws = length (sockets st), contexts = ctxs, rootContextId = None\<rparr>"
    obtain c1 res sent where e: "extractMetadata ?c0 (fresh_probe out) = (c1, res, sent)"
      by (cases "extractMetadata ?c0 (fresh_probe out)") auto
    show ?thesis
    proof (cases res)
      case None
      with Connected e have
        "fst (connect_new st new k u t out) =
           st\<lparr>sockets := ws_close (sockets st @ [(u, OPEN)]) (length (sockets st))\<rparr>"
        by (simp add: connect_new_def Let_def)
      then show ?thesis
        using frame [of "st\<lparr>sockets := ws_close (sockets st @ [(u, OPEN)]) (length (sockets st))\<rparr>"]
        by (simp add: nth_append ws_close_nth length_ws_close)
    next
      case (Some p)
      obtain v ctx where p: "p = (v, ctx)" by (cases p)
      from Some p Connected e obtain entry where
        "fst (connect_new st new k u t out) =
           st\<lparr>heap := heap st @ [entry], sockets := sockets st @ [(u, OPEN)]\<rparr>"
        by (simp add: connect_new_def Let_def)
      then show ?thesis
        using frame [of "st\<lparr>heap := heap st @ [entry], sockets := sockets st @ [(u, OPEN)]\<rparr>"]
        by (simp add: nth_append)
    qed
  qed
qed

lemma identified_identity: "identified st x k \<Longrightarrow> identity x = Some k"
  by (auto simp: identified_def identity_def split: option.splits)

lemma identified_view:
  "session_view st k = session_view st1 k \<Longrightarrow> identified st x k = identified st1 x k"
  using refresh_succeeds_view [of st k st1 "snd x"]
  by (auto simp: identified_def split: option.splits)

lemma reconcile_target_frame:
  assumes "wf_registry st" and "reconcile_target (st, new) x = Inr (st1, new1)"
  shows "wf_registry st1 \<and>
         (\<forall>k1. identity x \<noteq> Some k1 \<longrightarrow> session_view st1 k1 = session_view st k1)"
proof -
  obtain t out where x: "x = (t, out)" by (cases x)
  from assms x obtain u where u: "webSocketDebuggerUrl t = Some u"
    by (cases "webSocketDebuggerUrl t") (simp_all add: reconcile_target_def)
  let ?k = "hashString u"
  have i: "identity x = Some ?k" using x u by (simp add: identity_def)
  obtain st2 r where re: "refresh_existing st ?k out = (st2, r)"
    by (cases "refresh_existing st ?k out")
  from refresh_existing_frame [OF assms(1), of ?k out] re
  have f2: "wf_registry st2" "\<forall>k1. k1 \<noteq> ?k \<longrightarrow> session_view st2 k1 = session_view st k1"
    by simp_all
  show ?thesis
  proof (cases r)
    case (Some a)
    with assms x u re have "st1 = st2" by (simp add: reconcile_target_def Let_def)
    with f2 i show ?thesis by auto
  next
    case None
    with assms x u re have "st1 = fst (connect_new st2 new ?k u t out)"
      by (simp add: reconcile_target_def Let_def split: prod.splits)
    with connect_new_frame [OF f2(1), of new ?k u t out] f2 i show ?thesis by auto
  qed
qed

lemma reconcile_frame:
  "wf_registry st \<Longrightarrow> reconcile (st, new) xs = Inr (st1, new1) \<Longrightarrow>
   wf_registry st1 \<and>
   (\<forall>k1. Some k1 \<notin> identity ` set xs \<longrightarrow> session_view st1 k1 = session_view st k1)"
proof (induction xs arbitrary: st new)
  case Nil
  then show ?case by simp
next
  case (Cons x xs)
  from Cons.prems obtain st2 new2 where t: "reconcile_target (st, new) x = Inr (st2, new2)"
    by (cases "reconcile_target (st, new) x") auto
  with Cons.prems have r: "reconcile (st2, new2) xs = Inr (st1, new1)" by simp
  from reconcile_target_frame [OF Cons.prems(1) t]
  have f: "wf_registry st2" "\<forall>k1. identity x \<noteq> Some k1 \<longrightarrow> session_view st2 k1 = session_view st k1"
    by simp_all
  from Cons.IH [OF f(1) r] f(2) show ?case by auto
qed

lemma reconcile_take:
  "reconcile acc xs = Inr r \<Longrightarrow> \<exists>acc1. reconcile acc (take i xs) = Inr acc1"
proof (induction xs arbitrary: acc i)
  case Nil
  then show ?case by simp
next
  case (Cons x xs)
  from Cons.prems obtain acc2 where t: "reconcile_target acc x = Inr acc2"
    by (cases "reconcile_target acc x") auto
  with Cons.prems have "reconcile acc2 xs = Inr r" by simp
  from Cons.IH [OF this] t show ?case by (cases i) simp_all
qed

lemma distinct_map_take:
  assumes "distinct (map f xs)" and "i < length xs"
  shows "f (xs ! i) \<notin> f ` set (take i xs)"
proof
  assume "f (xs ! i) \<in> f ` set (take i xs)"
  then obtain y where y: "y \<in> set (take i xs)" "f y = f (xs ! i)" by auto
  then obtain j where j: "j < i" "j < length xs" "y = xs ! j"
    using assms(2) by (auto simp: in_set_conv_nth)
  with y assms(2) have "map f xs ! j = map f xs ! i" by simp
  moreover have "j < length (map f xs)" "i < length (map f xs)" using j assms(2) by simp_all
  ultimately have "j = i" using assms(1) by (simp only: nth_eq_iff_index_eq)
  with j show False by simp
qed

lemma identified_keys_distinct:
  assumes "wf_registry st" and "distinct (map identity xs)"
    and "reconcile (st, new) xs = Inr r"
  shows "identified_keys (st, new) xs = {k. \<exists>x \<in> set xs. identified st x k}"
proof -
  have eq: "identified (fst acc1) (xs ! i) k = identified st (xs ! i) k"
    if i: "i < length xs" and a: "reconcile (st, new) (take i xs) = Inr acc1"
      and d: "identity (xs ! i) = Some k" for i acc1 k
  proof -
    obtain st1 new1 where acc1: "acc1 = (st1, new1)" by (cases acc1)
    from distinct_map_take [OF assms(2) i] d have "Some k \<notin> identity ` set (take i xs)" by simp
    with reconcile_frame [OF assms(1), of new "take i xs" st1 new1] a acc1
    have "session_view st1 k = session_view st k" by simp
    from identified_view [OF this, of "xs ! i"] acc1 show ?thesis by simp
  qed
  show ?thesis
  proof (intro set_eqI iffI)
    fix k assume "k \<in> identified_keys (st, new) xs"
    then obtain i acc1 where i: "i < length xs"
        and a: "reconcile (st, new) (take i xs) = Inr acc1"
        and d: "identified (fst acc1) (xs ! i) k"
      unfolding identified_keys_def by blast
    from d have "identity (xs ! i) = Some k" by (rule identified_identity)
    with eq [OF i a] d have "identified st (xs ! i) k" by simp
    with i show "k \<in> {k. \<exists>x \<in> set xs. identified st x k}" by auto
  next
    fix k assume "k \<in> {k. \<exists>x \<in> set xs. identified st x k}"
    then obtain x where x: "x \<in> set xs" "identified st x k" by blast
    then obtain i where i: "i < length xs" "x = xs ! i" by (auto simp: in_set_conv_nth)
    from reconcile_take [OF assms(3), of i] obtain acc1
      where a: "reconcile (st, new) (take i xs) = Inr acc1" by blast
    from x i have "identity (xs ! i) = Some k" by (simp add: identified_identity)
    with eq [OF i(1) a] x i have "identified (fst acc1) (xs ! i) k" by simp
    with i a show "k \<in> identified_keys (st, new) xs" unfolding identified_keys_def by blast
  qed
qed


lemma set_update_subset:
  "set (AList.update k v al) \<subseteq> insert (k, v) (set al)"
  by (induction al) auto

lemma distinct_snd_update:
  "distinct (map fst al) \<Longrightarrow> distinct (map snd al) \<Longrightarrow>
   \<forall>p \<in> set al. fst p \<noteq> k \<longrightarrow> snd p \<noteq> v \<Longrightarrow> distinct (map snd (AList.update k v al))"
proof (induction al)
  case Nil
  show ?case by simp
next
  case (Cons p ps)
  show ?case
  proof (cases "fst p = k")
    case True
    with Cons.prems have "\<forall>q \<in> set ps. fst q \<noteq> k" by (auto simp: image_iff)
    with Cons.prems have "v \<notin> snd ` set ps" by auto
    with True Cons.prems show ?thesis by simp
  next
    case False
    from Cons have d: "distinct (map snd (AList.update k v ps))" by simp
    have "snd p \<notin> snd ` set (AList.update k v ps)"
    proof
      assume "snd p \<in> snd ` set (AList.update k v ps)"
      then obtain q where q: "q \<in> set (AList.update k v ps)" "snd q = snd p" by auto
      with set_update_subset [of k v ps] have "q = (k, v) \<or> q \<in> set ps" by auto
      with q Cons.prems False show False by (auto simp: image_iff)
    qed
    with False d show ?thesis by simp
  qed
qed

lemma ws_heap_update:
  "ws (cdp e) = ws (cdp (h ! a)) \<Longrightarrow> b < length h \<Longrightarrow> ws (cdp (h[a := e] ! b)) = ws (cdp (h ! b))"
  by (cases "b = a") simp_all

lemma pass_inv_refresh:
  assumes "pass_inv n st new"
  shows "pass_inv n (fst (refresh_existing st k out)) new \<and>
         (\<forall>a. snd (refresh_existing st k out) = Some a \<longrightarrow>
              map_of (cascades st) k = Some a)"
proof -
  let ?st1 = "fst (refresh_existing st k out)"
  from assms have wf: "wf_registry st" by (simp add: pass_inv_def)
  from refresh_existing_frame [OF wf, of k out] have wf1: "wf_registry ?st1" by simp
  from refresh_existing_result [of st k out] have c: "cascades ?st1 = cascades st"
    and r: "\<forall>a. snd (refresh_existing st k out) = Some a \<longrightarrow> map_of (cascades st) k = Some a"
    by simp_all
  have h: "length (heap ?st1) = length (heap st) \<and> sockets ?st1 = sockets st \<and>
           (\<forall>a < length (heap st). ws (cdp (heap ?st1 ! a)) = ws (cdp (heap st ! a)))"
  proof (cases "map_of (cascades st) k")
    case None
    then show ?thesis by (simp add: refresh_existing_def)
  next
    case (Some a)
    show ?thesis
    proof (cases "readyState st (ws (cdp (heap st ! a))) = OPEN")
      case False
      with Some show ?thesis by (simp add: refresh_existing_def Let_def)
    next
      case True
      obtain c1 res sent where e: "extractMetadata (cdp (heap st ! a)) (refresh_probe out) = (c1, res, sent)"
        by (cases "extractMetadata (cdp (heap st ! a)) (refresh_probe out)") auto
      then have w: "ws c1 = ws (cdp (heap st ! a))"
        using ws_extractMetadata [of "cdp (heap st ! a)" "refresh_probe out"] by simp
      show ?thesis
      proof (cases res)
        case None
        with Some True e w show ?thesis
          by (auto simp: refresh_existing_def Let_def ws_heap_update)
      next
        case (Some p)
        with \<open>map_of (cascades st) k = Some a\<close> True e w show ?thesis
          by (cases p) (auto simp: refresh_existing_def Let_def ws_heap_update ws_cache_context)
      qed
    qed
  qed
  from assms wf1 c h have "pass_inv n ?st1 new"
    by (auto simp: pass_inv_def list_all_iff)
  with r show ?thesis by simp
qed

lemma connect_new_cases:
  "(\<exists>socks. connect_new st new k u t out = (st\<lparr>sockets := socks\<rparr>, new) \<and>
       length socks = Suc (length (sockets st)) \<and>
       (\<forall>w < length (sockets st). socks ! w = sockets st ! w)) \<or>
   (\<exists>entry. connect_new st new k u t out =
        (st\<lparr>heap := heap st @ [entry], sockets := sockets st @ [(u, OPEN)]\<rparr>,
         AList.update k (length (heap st)) new) \<and>
       ws (cdp entry) = length (sockets st))"
proof (cases "connect out")
  case Refused
  then have "connect_new st new k u t out = (st\<lparr>sockets := sockets st @ [(u, CLOSED)]\<rparr>, new)"
    by (simp add: connect_new_def)
  then show ?thesis by (intro disjI1 exI [of _ "sockets st @ [(u, CLOSED)]"]) (simp add: nth_append)
next
  case Enable_rejected
  then have "connect_new st new k u t out = (st\<lparr>sockets := sockets st @ [(u, OPEN)]\<rparr>, new)"
    by (simp add: connect_new_def)
  then show ?thesis by (intro disjI1 exI [of _ "sockets st @ [(u, OPEN)]"]) (simp add: nth_append)
next
  case (Connected ctxs)
  let ?c0 = "\<lparr>ws = length (sockets st), contexts = ctxs, rootContextId = None\<rparr>"
  obtain c1 res sent where e: "extractMetadata ?c0 (fresh_probe out) = (c1, res, sent)"
    by (cases "extractMetadata ?c0 (fresh_probe out)") auto
  then have w: "ws c1 = length (sockets st)"
    using ws_extractMetadata [of ?c0 "fresh_probe out"] by simp
  show ?thesis
  proof (cases res)
    case None
    with Connected e have
      "connect_new st new k u t out =
         (st\<lparr>sockets := ws_close (sockets st @ [(u, OPEN)]) (length (sockets st))\<rparr>, new)"
      by (simp add: connect_new_def Let_def)
    then show ?thesis
      by (intro disjI1 exI [of _ "ws_close (sockets st @ [(u, OPEN)]) (length (sockets st))"])
        (simp add: nth_append ws_close_nth length_ws_close)
  next
    case (Some p)
    obtain v ctx where p: "p = (v, ctx)" by (cases p)
    let ?entry = "\<lparr>cascade_id = k, cdp = cache_context c1 ctx,
                                metadata = \<lparr>windowTitle = target_title t,
                                   chatTitle = page_meta.chatTitle v,
                                   isActive = page_meta.isActive v,
                                   app = page_meta.app v,
                                   rootElementId = page_meta.rootElementId v,
                                   rootSelector = page_meta.rootSelector v\<rparr>,
                                snapshot = None,
                                css = captureCSS (cache_context c1 ctx) (css_answer out),
                                snapshotHash = None\<rparr>"
    from Some p Connected e have
      "connect_new st new k u t out =
         (st\<lparr>heap := heap st @ [?entry], sockets := sockets st @ [(u, OPEN)]\<rparr>,
          AList.update k (length (heap st)) new)"
      by (simp add: connect_new_def Let_def)
    moreover have "ws (cdp ?entry) = length (sockets st)" using w by (simp add: ws_cache_context)
    ultimately show ?thesis by (intro disjI2 exI [of _ ?entry]) simp
  qed
qed

lemma pass_inv_connect:
  assumes "pass_inv n st new"
  shows "pass_inv n (fst (connect_new st new k u t out)) (snd (connect_new st new k u t out))"
proof -
  from assms have wf: "wf_registry st" by (simp add: pass_inv_def)
  from connect_new_frame [OF wf, of new k u t out]
  have wf1: "wf_registry (fst (connect_new st new k u t out))" by simp
  from connect_new_cases [of st new k u t out] show ?thesis
  proof (elim disjE exE conjE)
    fix socks
    assume c: "connect_new st new k u t out = (st\<lparr>sockets := socks\<rparr>, new)"
      and l: "length socks = Suc (length (sockets st))"
    from wf1 c have "wf_registry (st\<lparr>sockets := socks\<rparr>)" by simp
    with assms l have "pass_inv n (st\<lparr>sockets := socks\<rparr>) new"
      by (auto simp: pass_inv_def list_all_iff)
    with c show ?thesis by simp
  next
    fix entry
    let ?st1 = "st\<lparr>heap := heap st @ [entry], sockets := sockets st @ [(u, OPEN)]\<rparr>"
    let ?new1 = "AList.update k (length (heap st)) new"
    assume c: "connect_new st new k u t out = (?st1, ?new1)"
      and w: "ws (cdp entry) = length (sockets st)"
    from wf1 c have 1: "wf_registry ?st1" by simp
    from assms have 2: "distinct (map fst ?new1)" by (simp add: pass_inv_def distinct_update)
    from assms have "\<forall>p \<in> set new. fst p \<noteq> k \<longrightarrow> snd p \<noteq> length (heap st)"
      by (auto simp: pass_inv_def list_all_iff)
    with assms have 3: "distinct (map snd ?new1)"
      by (intro distinct_snd_update) (simp_all add: pass_inv_def)
    have 4: "snd p < length (heap ?st1) \<and> ws (cdp (heap ?st1 ! snd p)) < length (sockets ?st1) \<and>
             (map_of (cascades ?st1) (fst p) = Some (snd p) \<or> n \<le> snd p)" if "p \<in> set ?new1" for p
    proof -
      from that set_update_subset [of k "length (heap st)" new]
      consider "p = (k, length (heap st))" | "p \<in> set new" by auto
      then show ?thesis
      proof cases
        case 1
        with assms w show ?thesis by (simp add: pass_inv_def)
      next
        case 2
        with assms show ?thesis by (auto simp: pass_inv_def list_all_iff nth_append)
      qed
    qed
    from assms 1 2 3 4 have "pass_inv n ?st1 ?new1"
      by (simp add: pass_inv_def list_all_iff)
    with c show ?thesis by simp
  qed
qed

lemma pass_inv_target:
  assumes "pass_inv n st new" and "reconcile_target (st, new) x = Inr (st1, new1)"
  shows "pass_inv n st1 new1"
proof -
  obtain t out where x: "x = (t, out)" by (cases x)
  from assms x obtain u where u: "webSocketDebuggerUrl t = Some u"
    by (cases "webSocketDebuggerUrl t") (simp_all add: reconcile_target_def)
  let ?k = "hashString u"
  obtain st2 r where re: "refresh_existing st ?k out = (st2, r)"
    by (cases "refresh_existing st ?k out")
  from pass_inv_refresh [OF assms(1), of ?k out] re
  have i2: "pass_inv n st2 new" and ra: "\<forall>a. r = Some a \<longrightarrow> map_of (cascades st) ?k = Some a"
    by simp_all
  from refresh_existing_result [of st ?k out] re have c2: "cascades st2 = cascades st" by simp
  show ?thesis
  proof (cases r)
    case None
    with assms x u re have "(st1, new1) = connect_new st2 new ?k u t out"
      by (simp add: reconcile_target_def Let_def)
    with pass_inv_connect [OF i2, of ?k u t out] show ?thesis by (simp add: prod_eq_iff)
  next
    case (Some a)
    with assms x u re have e: "st1 = st2" "new1 = AList.update ?k a new"
      by (simp_all add: reconcile_target_def Let_def)
    from Some ra c2 have m: "map_of (cascades st2) ?k = Some a" by simp
    then have ka: "(?k, a) \<in> set (cascades st2)" by (rule map_of_SomeD)
    with i2 have an: "a < n" and ar: "a < length (heap st2)"
        "ws (cdp (heap st2 ! a)) < length (sockets st2)"
      by (auto simp: pass_inv_def wf_registry_def list_all_iff)
    have "snd p \<noteq> a" if "p \<in> set new" "fst p \<noteq> ?k" for p
    proof
      assume "snd p = a"
      with that i2 an have "map_of (cascades st2) (fst p) = Some a"
        by (auto simp: pass_inv_def list_all_iff)
      with i2 m have "fst p = ?k"
        using addresses_inj [of "cascades st2" "fst p" a ?k] by (simp add: pass_inv_def wf_registry_def)
      with that show False by simp
    qed
    with i2 have 3: "distinct (map snd (AList.update ?k a new))"
      by (intro distinct_snd_update) (simp_all add: pass_inv_def)
    from i2 have 2: "distinct (map fst (AList.update ?k a new))"
      by (simp add: pass_inv_def distinct_update)
    have 4: "snd p < length (heap st2) \<and> ws (cdp (heap st2 ! snd p)) < length (sockets st2) \<and>
             (map_of (cascades st2) (fst p) = Some (snd p) \<or> n \<le> snd p)"
      if "p \<in> set (AList.update ?k a new)" for p
    proof -
      from that set_update_subset [of ?k a new] consider "p = (?k, a)" | "p \<in> set new" by auto
      then show ?thesis
      proof cases
        case 1
        with ar m show ?thesis by simp
      next
        case 2
        with i2 show ?thesis by (auto simp: pass_inv_def list_all_iff)
      qed
    qed
    from i2 2 3 4 have "pass_inv n st2 (AList.update ?k a new)"
      by (simp add: pass_inv_def list_all_iff)
    with e show ?thesis by simp
  qed
qed

lemma pass_inv_reconcile:
  "pass_inv n st new \<Longrightarrow> reconcile (st, new) xs = Inr (st1, new1) \<Longrightarrow> pass_inv n st1 new1"
proof (induction xs arbitrary: st new)
  case Nil
  then show ?case by simp
next
  case (Cons x xs)
  from Cons.prems obtain st2 new2 where t: "reconcile_target (st, new) x = Inr (st2, new2)"
    by (cases "reconcile_target (st, new) x") auto
  with Cons.prems have r: "reconcile (st2, new2) xs = Inr (st1, new1)" by simp
  from pass_inv_target [OF Cons.prems(1) t] Cons.IH [OF _ r] show ?case by simp
qed

lemma length_cleanup: "length (cleanup st new) = length (sockets st)"
proof -
  have "length (foldl (\<lambda>socks (k, a).
              if map_of new k = None then ws_close socks (ws (cdp (heap st ! a)))
              else socks) socks0 al) = length socks0" for socks0 al
    by (induction al arbitrary: socks0) (auto simp: length_ws_close split: prod.splits)
  then show ?thesis by (simp add: cleanup_def)
qed

lemma discover_wf:
  assumes "wf_registry st" and "discover st replies = Inr (st1, evs)"
  shows "wf_registry st1"
proof -
  from assms(2) obtain st2 new where r: "reconcile (st, []) (all_targets replies) = Inr (st2, new)"
    by (cases "reconcile (st, []) (all_targets replies)") (auto simp: discover_def split: if_splits)
  with assms(2) have e: "st1 = st2\<lparr>sockets := cleanup st2 new, cascades := new\<rparr>"
    by (auto simp: discover_def Let_def split: if_splits)
  from assms(1) have "pass_inv (length (heap st)) st []"
    by (simp add: pass_inv_def wf_registry_def list_all_iff)
  from pass_inv_reconcile [OF this r] have "pass_inv (length (heap st)) st2 new" .
  with e show ?thesis
    by (simp add: pass_inv_def wf_registry_def list_all_iff length_cleanup)
qed

lemma update_entry_wf:
  assumes "wf_registry st"
  shows "wf_registry (fst (update_entry st a reply))"
proof -
  have "\<exists>e. fst (update_entry st a reply) = st \<or>
            (fst (update_entry st a reply) = st\<lparr>heap := (heap st)[a := e]\<rparr> \<and> cdp e = cdp (heap st ! a))"
    by (auto simp: update_entry_def Let_def split: option.splits)
  then obtain e where "fst (update_entry st a reply) = st \<or>
            (fst (update_entry st a reply) = st\<lparr>heap := (heap st)[a := e]\<rparr> \<and> cdp e = cdp (heap st ! a))"
    by blast
  then show ?thesis
  proof
    assume "fst (update_entry st a reply) = st" with assms show ?thesis by simp
  next
    assume h: "fst (update_entry st a reply) = st\<lparr>heap := (heap st)[a := e]\<rparr> \<and> cdp e = cdp (heap st ! a)"
    then have "ws (cdp ((heap st)[a := e] ! b)) = ws (cdp (heap st ! b))" if "b < length (heap st)" for b
      using that by (intro ws_heap_update) simp_all
    with assms h show ?thesis by (auto simp: wf_registry_def list_all_iff)
  qed
qed

lemma wf_empty_state: "wf_registry empty_state"
  by (simp add: wf_registry_def empty_state_def)


text \<open>
  Claim C1. A discovery pass in which every answering port answers with a list and every
  candidate carries a transport URL completes, and after
  a pass that completes the key set of the registry is exactly the set of identities
  (\<open>hashString\<close> of \<open>webSocketDebuggerUrl\<close>) of the candidates that were successfully
  identified in this pass: no other key remains and no identified candidate is missing. When
  the candidates have pairwise different identities, whether a candidate is identified can
  be read off the state before the pass. A pass keeps the registry well formed.
\<close>

theorem discover_registry_keys:
  "(Not_a_list \<notin> set replies \<and>
    (\<forall>x \<in> set (all_targets replies). webSocketDebuggerUrl (fst x) \<noteq> None) \<longrightarrow>
      (\<exists>res. discover st replies = Inr res)) \<and>
   (\<forall>st1 evs. discover st replies = Inr (st1, evs) \<longrightarrow>
      fst ` set (cascades st1) = identified_keys (st, []) (all_targets replies) \<and>
      (wf_registry st \<longrightarrow> wf_registry st1) \<and>
      (wf_registry st \<and> distinct (map identity (all_targets replies)) \<longrightarrow>
         fst ` set (cascades st1) = {k. \<exists>x \<in> set (all_targets replies). identified st x k}))"
proof (intro conjI allI impI)
  assume a: "Not_a_list \<notin> set replies \<and>
    (\<forall>x \<in> set (all_targets replies). webSocketDebuggerUrl (fst x) \<noteq> None)"
  then obtain acc1 where "reconcile (st, []) (all_targets replies) = Inr acc1"
    using reconcile_completes by blast
  with a show "\<exists>res. discover st replies = Inr res"
    by (cases acc1) (simp add: discover_def Let_def)
next
  fix st1 evs assume d: "discover st replies = Inr (st1, evs)"
  then obtain st2 new where r: "reconcile (st, []) (all_targets replies) = Inr (st2, new)"
    by (cases "reconcile (st, []) (all_targets replies)") (auto simp: discover_def split: if_splits)
  with d have "cascades st1 = new" by (auto simp: discover_def Let_def split: if_splits)
  with reconcile_keys [OF r] show "fst ` set (cascades st1) = identified_keys (st, []) (all_targets replies)"
    by simp
next
  fix st1 evs assume "discover st replies = Inr (st1, evs)" and "wf_registry st"
  then show "wf_registry st1" by (rule discover_wf [rotated])
next
  fix st1 evs assume d: "discover st replies = Inr (st1, evs)"
    and h: "wf_registry st \<and> distinct (map identity (all_targets replies))"
  from d obtain st2 new where r: "reconcile (st, []) (all_targets replies) = Inr (st2, new)"
    by (cases "reconcile (st, []) (all_targets replies)") (auto simp: discover_def split: if_splits)
  with d have "cascades st1 = new" by (auto simp: discover_def Let_def split: if_splits)
  with reconcile_keys [OF r] identified_keys_distinct [OF _ _ r] h
  show "fst ` set (cascades st1) = {k. \<exists>x \<in> set (all_targets replies). identified st x k}"
    by simp
qed

theorem discover_registry_keys_witness:
  "map (\<lambda>x. webSocketDebuggerUrl (fst x)) (all_targets
       [Listing [(fix_bug_target, refresh_outcome), (other_target, fresh_outcome)], Unreachable])
     = [Some fix_bug_url, Some other_url] \<and>
   wf_registry fix_bug_state \<and>
   distinct (map identity (all_targets
       [Listing [(fix_bug_target, refresh_outcome), (other_target, fresh_outcome)], Unreachable])) \<and>
   discover fix_bug_state
     [Listing [(fix_bug_target, refresh_outcome), (other_target, fresh_outcome)], Unreachable] =
     Inr (both_state, [broadcastCascadeList both_state]) \<and>
   fst ` set (cascades both_state) = {hashString fix_bug_url, hashString other_url} \<and>
   identified_keys (fix_bug_state, [])
     (all_targets [Listing [(fix_bug_target, refresh_outcome), (other_target, fresh_outcome)], Unreachable])
     = {hashString fix_bug_url, hashString other_url} \<and>
   identified fix_bug_state (fix_bug_target, refresh_outcome) (hashString fix_bug_url) \<and>
   identified fix_bug_state (other_target, fresh_outcome) (hashString other_url) \<and>
   wf_registry both_state"
proof -
  let ?replies = "[Listing [(fix_bug_target, refresh_outcome), (other_target, fresh_outcome)], Unreachable]"
  have t: "all_targets ?replies = [(fix_bug_target, refresh_outcome), (other_target, fresh_outcome)]"
    by (simp add: all_targets_def workbench_targets)
  have h: "\<forall>x \<in> set (all_targets ?replies). webSocketDebuggerUrl (fst x) \<noteq> None"
    unfolding t by (simp add: fix_bug_target_def other_target_def)
  have u: "map (\<lambda>x. webSocketDebuggerUrl (fst x)) (all_targets ?replies) = [Some fix_bug_url, Some other_url]"
    unfolding t by (simp add: fix_bug_target_def other_target_def)
  have w: "wf_registry fix_bug_state"
    by (simp add: wf_registry_def fix_bug_state_def fix_bug_entry_def)
  have d: "distinct (map identity (all_targets ?replies))"
    unfolding t using ids_differ by (simp add: identity_def fix_bug_target_def other_target_def)
  have k: "fst ` set (cascades both_state) = {hashString fix_bug_url, hashString other_url}"
    by (simp add: both_state_def)
  note inst = discover_registry_keys [of ?replies fix_bug_state]
  have "Not_a_list \<notin> set ?replies" by simp
  with inst h have c: "\<exists>res. discover fix_bug_state ?replies = Inr res" by blast
  from inst both_pass
  have 1: "fst ` set (cascades both_state) = identified_keys (fix_bug_state, []) (all_targets ?replies)"
    by blast
  from inst both_pass w have 2: "wf_registry both_state" by blast
  from inst both_pass w d
  have 3: "fst ` set (cascades both_state) =
      {k. \<exists>x \<in> set (all_targets ?replies). identified fix_bug_state x k}" by blast
  have "hashString fix_bug_url \<in> fst ` set (cascades both_state)"
    "hashString other_url \<in> fst ` set (cascades both_state)" using k by simp_all
  then have 4: "identified fix_bug_state (fix_bug_target, refresh_outcome) (hashString fix_bug_url)"
    and 5: "identified fix_bug_state (other_target, fresh_outcome) (hashString other_url)"
    unfolding 3 t using ids_differ
    by (auto dest: identified_identity simp: identity_def fix_bug_target_def other_target_def)
  from u w d c both_pass k 1 2 4 5 show ?thesis by simp
qed

text \<open>
  Claim C4, as the code has it. A discovery pass emits a list broadcast if and only if the
  number of registry entries differs from the number before the pass. A pass that leaves the
  key set as it was emits none; when every port fails the registry becomes empty and the
  list broadcast is emitted exactly when the registry was non-empty before.
\<close>

theorem discover_broadcast_on_size_change:
  "\<forall>st1 evs. discover st replies = Inr (st1, evs) \<longrightarrow>
     evs = (if length (cascades st1) \<noteq> length (cascades st) then [broadcastCascadeList st1] else []) \<and>
     distinct (map fst (cascades st1)) \<and>
     (distinct (map fst (cascades st)) \<and> fst ` set (cascades st1) = fst ` set (cascades st)
        \<longrightarrow> evs = []) \<and>
     ((\<forall>r \<in> set replies. r = Unreachable) \<longrightarrow>
        cascades st1 = [] \<and> (evs \<noteq> [] \<longleftrightarrow> cascades st \<noteq> []))"
proof (intro allI impI)
  fix st1 evs assume d: "discover st replies = Inr (st1, evs)"
  then obtain st2 new where r: "reconcile (st, []) (all_targets replies) = Inr (st2, new)"
    by (cases "reconcile (st, []) (all_targets replies)") (auto simp: discover_def split: if_splits)
  from reconcile_keys [OF r] have c2: "cascades st2 = cascades st" by simp
  from d r have c1: "cascades st1 = new"
    and e: "evs = (if length (cascades st2) \<noteq> length new then [broadcastCascadeList st1] else [])"
    by (auto simp: discover_def Let_def split: if_splits)
  have ev: "evs = (if length (cascades st1) \<noteq> length (cascades st) then [broadcastCascadeList st1] else [])"
    using e c1 c2 by auto
  have di: "distinct (map fst (cascades st1))"
    using reconcile_distinct [OF r] c1 by simp
  have same: "evs = []" if "distinct (map fst (cascades st)) \<and> fst ` set (cascades st1) = fst ` set (cascades st)"
    using distinct_keys_length [of "cascades st1" "cascades st"] that di ev by simp
  have un: "cascades st1 = [] \<and> (evs \<noteq> [] \<longleftrightarrow> cascades st \<noteq> [])" if "\<forall>r \<in> set replies. r = Unreachable"
  proof -
    from that have "all_targets replies = []" by (rule all_targets_unreachable)
    with r have "new = []" by simp
    with c1 ev show ?thesis by auto
  qed
  from ev di same un show "evs = (if length (cascades st1) \<noteq> length (cascades st) then [broadcastCascadeList st1] else []) \<and>
     distinct (map fst (cascades st1)) \<and>
     (distinct (map fst (cascades st)) \<and> fst ` set (cascades st1) = fst ` set (cascades st)
        \<longrightarrow> evs = []) \<and>
     ((\<forall>r \<in> set replies. r = Unreachable) \<longrightarrow>
        cascades st1 = [] \<and> (evs \<noteq> [] \<longleftrightarrow> cascades st \<noteq> []))"
    by blast
qed


theorem discover_broadcast_on_size_change_witness:
  "discover fix_bug_state [Unreachable, Unreachable, Unreachable, Unreachable] =
     Inr (closed_state, [Cascade_list []]) \<and>
   cascades closed_state = [] \<and> cascades fix_bug_state \<noteq> [] \<and>
   discover fix_bug_state
     [Listing [(fix_bug_target, refresh_outcome), (other_target, fresh_outcome)], Unreachable] =
     Inr (both_state, [broadcastCascadeList both_state]) \<and>
   length (cascades both_state) \<noteq> length (cascades fix_bug_state)"
proof -
  have a: "\<forall>r \<in> set [Unreachable, Unreachable, Unreachable, Unreachable]. r = Unreachable" by simp
  from discover_broadcast_on_size_change [of fix_bug_state
      "[Unreachable, Unreachable, Unreachable, Unreachable]"] unreachable_pass a
  have 1: "cascades closed_state = [] \<and> cascades fix_bug_state \<noteq> []" by blast
  from discover_broadcast_on_size_change [of fix_bug_state
      "[Listing [(fix_bug_target, refresh_outcome), (other_target, fresh_outcome)], Unreachable]"]
    both_pass
  have 2: "[broadcastCascadeList both_state] =
     (if length (cascades both_state) \<noteq> length (cascades fix_bug_state)
      then [broadcastCascadeList both_state] else [])" by blast
  then have 3: "length (cascades both_state) \<noteq> length (cascades fix_bug_state)"
    by (simp split: if_splits)
  from unreachable_pass a 1 both_pass 3 show ?thesis by simp
qed

text \<open>
  Claim C4 as stated fails: the pass below drops the only entry and adds one for another
  target, so the membership changes, and no list broadcast is emitted.
\<close>

theorem discover_swap_counterexample:
  "discover fix_bug_state [Listing [(other_target, fresh_outcome)]] = Inr (swapped_state, []) \<and>
   map fst (cascades fix_bug_state) = [hashString fix_bug_url] \<and>
   map fst (cascades swapped_state) = [hashString other_url] \<and>
   hashString other_url \<noteq> hashString fix_bug_url"
  using swap_pass ids_differ by (simp add: fix_bug_state_def swapped_state_def)

text \<open>
  Claim C2 on the code. The registry holds an entry with an open socket; in the pass the
  metadata refresh on that entry finds no chat root and the fresh connection to the same
  target finds one. The new entry replaces the old one under the same identity and the old
  entry's socket is still open: the engine holds two open sockets for that identity.
\<close>

theorem discover_leaves_replaced_socket_open:
  "discover fix_bug_state [Listing [(fix_bug_target, reconnect_outcome)]] = Inr (reconnected_state, []) \<and>
   map_of (cascades reconnected_state) (hashString fix_bug_url) = Some 1 \<and>
   ws (cdp (heap reconnected_state ! 1)) = 1 \<and>
   sockets reconnected_state ! 0 = (fix_bug_url, OPEN) \<and>
   length (open_sockets reconnected_state (hashString fix_bug_url)) = 2"
proof -
  have t: "all_targets [Listing [(fix_bug_target, reconnect_outcome)]] = [(fix_bug_target, reconnect_outcome)]"
    by (simp add: all_targets_def workbench_targets)
  have u: "webSocketDebuggerUrl fix_bug_target = Some fix_bug_url" by (simp add: fix_bug_target_def)
  have r: "reconcile (fix_bug_state, []) [(fix_bug_target, reconnect_outcome)] =
      Inr (reconnected_state\<lparr>cascades := cascades fix_bug_state\<rparr>, [(hashString fix_bug_url, 1)])"
    by (simp add: reconcile_target_def u refresh_fails connect_succeeds)
  have d: "discover fix_bug_state [Listing [(fix_bug_target, reconnect_outcome)]] = Inr (reconnected_state, [])"
    unfolding discover_def t r
    by (simp add: cleanup_def fix_bug_state_def reconnected_state_def Let_def)
  show ?thesis unfolding d
    by (simp add: reconnected_state_def fresh_fix_bug_entry_def open_sockets_def)
qed



end
